theory Spec2Isabelle
  imports Main "HOL-Library.List_Lexorder"
begin

section \<open>JavaScript strings\<close>

text \<open>
  A JavaScript string is a sequence of UTF-16 code units. The canonical operator symbols
  of the formula language lie outside ASCII (U+2227, U+2228, U+2192, U+2194), and
  \<open>length\<close>, \<open>startsWith\<close>, \<open>slice\<close> and indexing all count code units, so a string
  is modelled as the list of its code units, each a natural number. ASCII literals are
  written with \<open>js\<close>. The order on strings used by \<open>Array.prototype.sort\<close> is the
  lexicographic order on code units, which is the order of \<open>List_Lexorder\<close>.
\<close>

type_synonym jstring = "nat list"

definition js :: "string \<Rightarrow> jstring" where
  "js s = map of_char s"

text \<open>\<open>s.startsWith(p)\<close>.\<close>

fun startsWith :: "jstring \<Rightarrow> jstring \<Rightarrow> bool" where
  "startsWith s [] = True"
| "startsWith [] (p # ps) = False"
| "startsWith (c # cs) (p # ps) = (c = p \<and> startsWith cs ps)"

text \<open>
  A JavaScript \<open>Set\<close> iterates in insertion order and ignores the insertion of an
  element it already holds: it is modelled as a list without repetition, and
  \<open>setAdd\<close> is \<open>Set.prototype.add\<close>.
\<close>

definition setAdd :: "'a list \<Rightarrow> 'a \<Rightarrow> 'a list" where
  "setAdd xs x = (if x \<in> set xs then xs else xs @ [x])"

definition newSet :: "'a list \<Rightarrow> 'a list" where
  "newSet xs = foldl setAdd [] xs"

section \<open>Tokenizer (utilities/formulaLexer.js)\<close>

datatype operatorType = NOT | AND | OR | IMPLIES | IFF

text \<open>
  \<open>Token(type, value, position)\<close>: the value of a parenthesis token is the
  parenthesis and the value of the end token is \<open>null\<close>, so only identifier and
  operator tokens carry a value besides their position.
\<close>

datatype token =
    IDENTIFIER jstring nat
  | OPERATOR operatorType nat
  | LPAREN nat
  | RPAREN nat
  | EOF nat

datatype parseMessage = ExpectedPrimary | ExpectedRParen | UnexpectedTokenAfterFormula

datatype ruleMessage = NotExactlyOneFormula | UnknownAlphaSubtype | NotAnImplication

text \<open>
  Every \<open>throw\<close> of the core is a value of \<open>error\<close>. The first three are the
  lexer's errors (offending character and position), \<open>ParseError\<close> is the parser's
  (message, position, offending token), \<open>RuleError\<close> is the error of a rule application.
\<close>

datatype error =
    InvalidIdentifierStart nat nat
  | UnknownOperator "nat option" nat
  | UnexpectedCharacter nat nat
  | ParseError parseMessage nat "token option"
  | RuleError ruleMessage

text \<open>\<open>OPERATOR_MAPPINGS\<close>, in the key order of the object literal.\<close>

definition OPERATOR_MAPPINGS :: "(jstring \<times> operatorType) list" where
  "OPERATOR_MAPPINGS =
    [([8743], AND), (js ''AND'', AND), (js ''&'', AND),
     ([8744], OR), (js ''OR'', OR), (js ''|'', OR),
     ([8594], IMPLIES), (js ''IMPLIES'', IMPLIES), (js ''->'', IMPLIES), (js ''=>'', IMPLIES),
     ([8596], IFF), (js ''IFF'', IFF), (js ''<->'', IFF), (js ''<=>'', IFF),
     (js ''~'', NOT), (js ''NOT'', NOT), (js ''!'', NOT)]"

text \<open>The character class \<open>\s\<close>, which is also what \<open>trim\<close> strips.\<close>

definition isWhitespace :: "nat \<Rightarrow> bool" where
  "isWhitespace c \<longleftrightarrow>
     c \<in> {9, 10, 11, 12, 13, 32, 160, 5760, 8232, 8233, 8239, 8287, 12288, 65279}
     \<or> (8192 \<le> c \<and> c \<le> 8202)"

text \<open>The character classes \<open>[A-Za-z]\<close> and \<open>[A-Za-z0-9_]\<close>.\<close>

definition isLetter :: "nat \<Rightarrow> bool" where
  "isLetter c \<longleftrightarrow> (65 \<le> c \<and> c \<le> 90) \<or> (97 \<le> c \<and> c \<le> 122)"

definition isIdentChar :: "nat \<Rightarrow> bool" where
  "isIdentChar c \<longleftrightarrow> isLetter c \<or> (48 \<le> c \<and> c \<le> 57) \<or> c = 95"

definition trim :: "jstring \<Rightarrow> jstring" where
  "trim s = rev (dropWhile isWhitespace (rev (dropWhile isWhitespace s)))"

text \<open>
  The lexer object holds the input, a position and the current character. Its state
  is modelled by the position together with the unread suffix
  \<open>input.slice(position)\<close>; the current character is the head of the suffix, or
  \<open>null\<close> when the suffix is empty. Every lexer function returns the token with the
  state after it.

  \<open>readIdentifier\<close>: on \<open>null\<close> the test \<open>/[A-Za-z]/.test(null)\<close> succeeds
  (it tests the string "null"), and the loop reads nothing.
\<close>

definition readIdentifier :: "nat \<Rightarrow> jstring \<Rightarrow> error + (token \<times> nat \<times> jstring)" where
  "readIdentifier pos rest =
     (case rest of
        [] \<Rightarrow> Inr (IDENTIFIER [] pos, pos, [])
      | c # cs \<Rightarrow>
          if \<not> isLetter c then Inl (InvalidIdentifierStart c pos)
          else let result = takeWhile isIdentChar rest
               in Inr (IDENTIFIER result pos, pos + length result, dropWhile isIdentChar rest))"

text \<open>
  \<open>Object.keys(OPERATOR_MAPPINGS).sort((a, b) => b.length - a.length)\<close>: a stable
  sort by descending length.
\<close>

definition operatorsByLength :: "(jstring \<times> operatorType) list" where
  "operatorsByLength = sort_key (\<lambda>(op, c). - int (length op)) OPERATOR_MAPPINGS"

definition readOperator :: "nat \<Rightarrow> jstring \<Rightarrow> error + (token \<times> nat \<times> jstring)" where
  "readOperator pos rest =
     (case find (\<lambda>(op, c). startsWith rest op) operatorsByLength of
        None \<Rightarrow> Inl (UnknownOperator (case rest of [] \<Rightarrow> None | c # cs \<Rightarrow> Some c) pos)
      | Some (op, canonical) \<Rightarrow>
          Inr (OPERATOR canonical pos, pos + length op, drop (length op) rest))"

definition startsOperator :: "jstring \<Rightarrow> bool" where
  "startsOperator rest \<longleftrightarrow>
     rest \<noteq> [] \<and> list_ex (\<lambda>(op, c). startsWith rest op) OPERATOR_MAPPINGS"

text \<open>
  \<open>getNextToken\<close>: the loop skips white space and continues; the first other
  character decides the token.
\<close>

fun getNextToken :: "nat \<Rightarrow> jstring \<Rightarrow> error + (token \<times> nat \<times> jstring)" where
  "getNextToken pos [] = Inr (EOF pos, pos, [])"
| "getNextToken pos (c # cs) =
     (if isWhitespace c then getNextToken (Suc pos) cs
      else if c = 40 then Inr (LPAREN pos, Suc pos, cs)
      else if c = 41 then Inr (RPAREN pos, Suc pos, cs)
      else if startsOperator (c # cs) then readOperator pos (c # cs)
      else if isLetter c then readIdentifier pos (c # cs)
      else Inl (UnexpectedCharacter c pos))"

fun isEOF :: "token \<Rightarrow> bool" where
  "isEOF (EOF p) = True"
| "isEOF t = False"

lemma operatorsByLength_eq:
  "operatorsByLength =
    [(js ''IMPLIES'', IMPLIES), (js ''AND'', AND), (js ''IFF'', IFF), (js ''<->'', IFF),
     (js ''<=>'', IFF), (js ''NOT'', NOT), (js ''OR'', OR), (js ''->'', IMPLIES),
     (js ''=>'', IMPLIES), ([8743], AND), (js ''&'', AND), ([8744], OR), (js ''|'', OR),
     ([8594], IMPLIES), ([8596], IFF), (js ''~'', NOT), (js ''!'', NOT)]"
  by (simp add: operatorsByLength_def OPERATOR_MAPPINGS_def js_def)

lemma startsWith_length: "startsWith s p \<Longrightarrow> length p \<le> length s"
  by (induction s p rule: startsWith.induct) auto

lemma operatorsByLength_nonempty: "(op, c) \<in> set operatorsByLength \<Longrightarrow> op \<noteq> []"
  unfolding operatorsByLength_eq by (auto simp: js_def)

lemma readOperator_progress:
  assumes "readOperator pos rest = Inr (tok, pos', rest')"
  shows "length rest' < length rest"
proof -
  from assms obtain op c
    where f: "find (\<lambda>(op, c). startsWith rest op) operatorsByLength = Some (op, c)"
      and r: "rest' = drop (length op) rest"
    unfolding readOperator_def by (auto split: option.splits)
  from f have "(op, c) \<in> set operatorsByLength" and "startsWith rest op"
    by (auto simp: find_Some_iff in_set_conv_nth)
  then have "op \<noteq> []" and "length op \<le> length rest"
    by (auto dest: operatorsByLength_nonempty startsWith_length)
  with r show ?thesis by (cases op) auto
qed

lemma readIdentifier_progress:
  "readIdentifier pos rest = Inr (tok, pos', rest') \<Longrightarrow> rest \<noteq> [] \<Longrightarrow>
   length rest' < length rest"
  unfolding readIdentifier_def
  by (auto simp: isIdentChar_def Let_def less_Suc_eq_le length_dropWhile_le
      split: list.splits if_splits)

lemma getNextToken_progress:
  "getNextToken pos rest = Inr (tok, pos', rest') \<Longrightarrow> \<not> isEOF tok \<Longrightarrow>
   length rest' < length rest"
proof (induction pos rest rule: getNextToken.induct)
  case (1 pos)
  then show ?case by auto
next
  case (2 pos c cs)
  show ?case
  proof (cases "isWhitespace c")
    case True
    with 2 show ?thesis by fastforce
  next
    case False
    with 2 show ?thesis
      by (auto split: if_splits dest: readOperator_progress readIdentifier_progress)
  qed
qed

text \<open>
  \<open>tokenize\<close>: tokens are read until the end token, which is kept. Every token but
  the end token consumes input, which is why the loop ends.
\<close>

function tokenizeLoop :: "nat \<Rightarrow> jstring \<Rightarrow> error + token list" where
  "tokenizeLoop pos rest =
     (case getNextToken pos rest of
        Inl e \<Rightarrow> Inl e
      | Inr (tok, pos', rest') \<Rightarrow>
          if isEOF tok then Inr [tok]
          else (case tokenizeLoop pos' rest' of
                  Inl e \<Rightarrow> Inl e
                | Inr toks \<Rightarrow> Inr (tok # toks)))"
  by pat_completeness auto
termination
  by (relation "measure (\<lambda>(pos, rest). length rest)") (auto dest: getNextToken_progress)

declare tokenizeLoop.simps [simp del]

definition tokenize :: "jstring \<Rightarrow> error + token list" where
  "tokenize input = tokenizeLoop 0 (trim input)"

section \<open>Abstract syntax (utilities/formulaAST.js)\<close>

text \<open>
  The three node classes. A unary node stores its operator (the parser only builds
  \<open>not\<close>), a binary node stores one of the operator tags.
\<close>

datatype ASTNode =
    AtomNode jstring
  | UnaryNode operatorType ASTNode
  | BinaryNode operatorType ASTNode ASTNode

definition createAtom :: "jstring \<Rightarrow> ASTNode" where "createAtom name = AtomNode name"
definition negate :: "ASTNode \<Rightarrow> ASTNode" where "negate a = UnaryNode NOT a"
definition createConjunction :: "ASTNode \<Rightarrow> ASTNode \<Rightarrow> ASTNode" where "createConjunction l r = BinaryNode AND l r"
definition createDisjunction :: "ASTNode \<Rightarrow> ASTNode \<Rightarrow> ASTNode" where "createDisjunction l r = BinaryNode OR l r"
definition createImplication :: "ASTNode \<Rightarrow> ASTNode \<Rightarrow> ASTNode" where "createImplication l r = BinaryNode IMPLIES l r"
definition createEquivalence :: "ASTNode \<Rightarrow> ASTNode \<Rightarrow> ASTNode" where "createEquivalence l r = BinaryNode IFF l r"

section \<open>Recursive descent parser (utilities/formulaParser.js)\<close>

text \<open>
  The parser object holds the token array and an index; \<open>currentToken\<close> is the
  token at the index, or \<open>null\<close> past the end. Its state is modelled by the index
  together with the tokens from the index on.
\<close>

type_synonym parser = "nat \<times> token list"

fun currentToken :: "parser \<Rightarrow> token option" where
  "currentToken (pos, []) = None"
| "currentToken (pos, t # ts) = Some t"

fun advance :: "parser \<Rightarrow> parser" where
  "advance (pos, ts) = (Suc pos, tl ts)"

fun tokenPosition :: "token \<Rightarrow> nat" where
  "tokenPosition (IDENTIFIER v p) = p"
| "tokenPosition (OPERATOR v p) = p"
| "tokenPosition (LPAREN p) = p"
| "tokenPosition (RPAREN p) = p"
| "tokenPosition (EOF p) = p"

fun matchOperator :: "parser \<Rightarrow> operatorType \<Rightarrow> bool" where
  "matchOperator (pos, OPERATOR v p # ts) op = (v = op)"
| "matchOperator st op = False"

text \<open>\<open>this.currentToken?.position || this.position\<close>: position 0 is falsy.\<close>

fun errorPosition :: "parser \<Rightarrow> nat" where
  "errorPosition (pos, []) = pos"
| "errorPosition (pos, t # ts) = (if tokenPosition t = 0 then pos else tokenPosition t)"

text \<open>\<open>consume(TokenType.RPAREN, ')', ...)\<close>, the only use of \<open>consume\<close>.\<close>

fun consumeRParen :: "parser \<Rightarrow> error + parser" where
  "consumeRParen (pos, RPAREN p # ts) = Inr (advance (pos, RPAREN p # ts))"
| "consumeRParen st = Inl (ParseError ExpectedRParen (errorPosition st) (currentToken st))"

text \<open>
  One function per grammar level, as in the source; the three \<open>while\<close> loops of
  the left-associative levels are the functions \<open>equivalenceLoop\<close>,
  \<open>disjunctionLoop\<close> and \<open>conjunctionLoop\<close>, which carry the variable
  \<open>left\<close>.
\<close>

function (domintros)
      parseEquivalence :: "parser \<Rightarrow> error + (ASTNode \<times> parser)"
  and equivalenceLoop :: "ASTNode \<Rightarrow> parser \<Rightarrow> error + (ASTNode \<times> parser)"
  and parseImplication :: "parser \<Rightarrow> error + (ASTNode \<times> parser)"
  and parseDisjunction :: "parser \<Rightarrow> error + (ASTNode \<times> parser)"
  and disjunctionLoop :: "ASTNode \<Rightarrow> parser \<Rightarrow> error + (ASTNode \<times> parser)"
  and parseConjunction :: "parser \<Rightarrow> error + (ASTNode \<times> parser)"
  and conjunctionLoop :: "ASTNode \<Rightarrow> parser \<Rightarrow> error + (ASTNode \<times> parser)"
  and parseNegation :: "parser \<Rightarrow> error + (ASTNode \<times> parser)"
  and parsePrimary :: "parser \<Rightarrow> error + (ASTNode \<times> parser)"
where
  "parseEquivalence st =
     (case parseImplication st of
        Inl e \<Rightarrow> Inl e
      | Inr (left, st') \<Rightarrow> equivalenceLoop left st')"
| "equivalenceLoop left st =
     (if matchOperator st IFF then
        (case parseImplication (advance st) of
           Inl e \<Rightarrow> Inl e
         | Inr (right, st') \<Rightarrow> equivalenceLoop (createEquivalence left right) st')
      else Inr (left, st))"
| "parseImplication st =
     (case parseDisjunction st of
        Inl e \<Rightarrow> Inl e
      | Inr (left, st') \<Rightarrow>
          if matchOperator st' IMPLIES then
            (case parseImplication (advance st') of
               Inl e \<Rightarrow> Inl e
             | Inr (right, st'') \<Rightarrow> Inr (createImplication left right, st''))
          else Inr (left, st'))"
| "parseDisjunction st =
     (case parseConjunction st of
        Inl e \<Rightarrow> Inl e
      | Inr (left, st') \<Rightarrow> disjunctionLoop left st')"
| "disjunctionLoop left st =
     (if matchOperator st OR then
        (case parseConjunction (advance st) of
           Inl e \<Rightarrow> Inl e
         | Inr (right, st') \<Rightarrow> disjunctionLoop (createDisjunction left right) st')
      else Inr (left, st))"
| "parseConjunction st =
     (case parseNegation st of
        Inl e \<Rightarrow> Inl e
      | Inr (left, st') \<Rightarrow> conjunctionLoop left st')"
| "conjunctionLoop left st =
     (if matchOperator st AND then
        (case parseNegation (advance st) of
           Inl e \<Rightarrow> Inl e
         | Inr (right, st') \<Rightarrow> conjunctionLoop (createConjunction left right) st')
      else Inr (left, st))"
| "parseNegation st =
     (if matchOperator st NOT then
        (case parseNegation (advance st) of
           Inl e \<Rightarrow> Inl e
         | Inr (operand, st') \<Rightarrow> Inr (negate operand, st'))
      else parsePrimary st)"
| "parsePrimary st =
     (case currentToken st of
        Some (LPAREN p) \<Rightarrow>
          (case parseEquivalence (advance st) of
             Inl e \<Rightarrow> Inl e
           | Inr (expr, st') \<Rightarrow>
               (case consumeRParen st' of
                  Inl e \<Rightarrow> Inl e
                | Inr st'' \<Rightarrow> Inr (expr, st'')))
      | Some (IDENTIFIER v p) \<Rightarrow> Inr (createAtom v, advance st)
      | _ \<Rightarrow> Inl (ParseError ExpectedPrimary (errorPosition st) (currentToken st)))"
  by pat_completeness auto

text \<open>
  Termination: a successful parse never returns more tokens than it was given, so
  every call after a sub-parse works on a shorter or equal token list, and calls on an
  equal list go down the grammar levels.
\<close>

abbreviation (input) parser_dom where
  "parser_dom \<equiv> parseEquivalence_equivalenceLoop_parseImplication_parseDisjunction_disjunctionLoop_parseConjunction_conjunctionLoop_parseNegation_parsePrimary_dom"

lemmas parser_psimps = parseEquivalence.psimps equivalenceLoop.psimps parseImplication.psimps
  parseDisjunction.psimps disjunctionLoop.psimps parseConjunction.psimps conjunctionLoop.psimps
  parseNegation.psimps parsePrimary.psimps

definition shorter :: "parser \<Rightarrow> error + (ASTNode \<times> parser) \<Rightarrow> bool" where
  "shorter st r \<longleftrightarrow> (\<forall>a st'. r = Inr (a, st') \<longrightarrow> length (snd st') \<le> length (snd st))"

lemma shorterI: "(\<And>a st'. r = Inr (a, st') \<Longrightarrow> length (snd st') \<le> length (snd st)) \<Longrightarrow> shorter st r"
  unfolding shorter_def by blast

lemma shorterD: "shorter st r \<Longrightarrow> r = Inr (a, st') \<Longrightarrow> length (snd st') \<le> length (snd st)"
  unfolding shorter_def by blast

lemma length_advance: "length (snd (advance st)) \<le> length (snd st)"
  by (cases st) simp

lemma consumeRParen_length: "consumeRParen st = Inr st' \<Longrightarrow> length (snd st') \<le> length (snd st)"
  by (induction st rule: consumeRParen.induct) auto

lemma parser_shorter_dom:
  shows "parser_dom (Inl (Inl (Inl st1))) \<Longrightarrow> shorter st1 (parseEquivalence st1)"
    and "parser_dom (Inl (Inl (Inr (l2, st2)))) \<Longrightarrow> shorter st2 (equivalenceLoop l2 st2)"
    and "parser_dom (Inl (Inr (Inl st3))) \<Longrightarrow> shorter st3 (parseImplication st3)"
    and "parser_dom (Inl (Inr (Inr st4))) \<Longrightarrow> shorter st4 (parseDisjunction st4)"
    and "parser_dom (Inr (Inl (Inl (l5, st5)))) \<Longrightarrow> shorter st5 (disjunctionLoop l5 st5)"
    and "parser_dom (Inr (Inl (Inr st6))) \<Longrightarrow> shorter st6 (parseConjunction st6)"
    and "parser_dom (Inr (Inr (Inl (l7, st7)))) \<Longrightarrow> shorter st7 (conjunctionLoop l7 st7)"
    and "parser_dom (Inr (Inr (Inr (Inl st8)))) \<Longrightarrow> shorter st8 (parseNegation st8)"
    and "parser_dom (Inr (Inr (Inr (Inr st9)))) \<Longrightarrow> shorter st9 (parsePrimary st9)"
proof (induct rule: parseEquivalence_equivalenceLoop_parseImplication_parseDisjunction_disjunctionLoop_parseConjunction_conjunctionLoop_parseNegation_parsePrimary.pinduct)
  case (1 st)
  show ?case
  proof (rule shorterI)
    fix a st' assume r: "parseEquivalence st = Inr (a, st')"
    then obtain l s where pi: "parseImplication st = Inr (l, s)" and el: "equivalenceLoop l s = Inr (a, st')"
      using 1(1) by (auto simp: parser_psimps split: sum.splits)
    from 1(2) pi have "length (snd s) \<le> length (snd st)" by (rule shorterD)
    moreover from 1(3)[OF pi refl] el have "length (snd st') \<le> length (snd s)" by (rule shorterD)
    ultimately show "length (snd st') \<le> length (snd st)" by simp
  qed
next
  case (2 left st)
  show ?case
  proof (rule shorterI)
    fix a st' assume r: "equivalenceLoop left st = Inr (a, st')"
    show "length (snd st') \<le> length (snd st)"
    proof (cases "matchOperator st IFF")
      case True
      with r obtain x s where pi: "parseImplication (advance st) = Inr (x, s)"
        and el: "equivalenceLoop (createEquivalence left x) s = Inr (a, st')"
        using 2(1) by (auto simp: parser_psimps split: sum.splits)
      from 2(2)[OF True] pi have "length (snd s) \<le> length (snd (advance st))" by (rule shorterD)
      moreover from 2(3)[OF True pi refl] el have "length (snd st') \<le> length (snd s)" by (rule shorterD)
      ultimately show ?thesis using length_advance[of st] by simp
    next
      case False
      with r 2(1) show ?thesis by (simp add: parser_psimps)
    qed
  qed
next
  case (3 st)
  show ?case
  proof (rule shorterI)
    fix a st' assume r: "parseImplication st = Inr (a, st')"
    then obtain l s where pd: "parseDisjunction st = Inr (l, s)"
      using 3(1) by (auto simp: parser_psimps split: sum.splits)
    from 3(2) pd have le: "length (snd s) \<le> length (snd st)" by (rule shorterD)
    show "length (snd st') \<le> length (snd st)"
    proof (cases "matchOperator s IMPLIES")
      case True
      with r pd obtain x where pi: "parseImplication (advance s) = Inr (x, st')"
        using 3(1) by (auto simp: parser_psimps split: sum.splits)
      from 3(3)[OF pd refl True] pi have "length (snd st') \<le> length (snd (advance s))" by (rule shorterD)
      with le length_advance[of s] show ?thesis by simp
    next
      case False
      with r pd 3(1) le show ?thesis by (simp add: parser_psimps)
    qed
  qed
next
  case (4 st)
  show ?case
  proof (rule shorterI)
    fix a st' assume r: "parseDisjunction st = Inr (a, st')"
    then obtain l s where pi: "parseConjunction st = Inr (l, s)" and el: "disjunctionLoop l s = Inr (a, st')"
      using 4(1) by (auto simp: parser_psimps split: sum.splits)
    from 4(2) pi have "length (snd s) \<le> length (snd st)" by (rule shorterD)
    moreover from 4(3)[OF pi refl] el have "length (snd st') \<le> length (snd s)" by (rule shorterD)
    ultimately show "length (snd st') \<le> length (snd st)" by simp
  qed
next
  case (5 left st)
  show ?case
  proof (rule shorterI)
    fix a st' assume r: "disjunctionLoop left st = Inr (a, st')"
    show "length (snd st') \<le> length (snd st)"
    proof (cases "matchOperator st OR")
      case True
      with r obtain x s where pi: "parseConjunction (advance st) = Inr (x, s)"
        and el: "disjunctionLoop (createDisjunction left x) s = Inr (a, st')"
        using 5(1) by (auto simp: parser_psimps split: sum.splits)
      from 5(2)[OF True] pi have "length (snd s) \<le> length (snd (advance st))" by (rule shorterD)
      moreover from 5(3)[OF True pi refl] el have "length (snd st') \<le> length (snd s)" by (rule shorterD)
      ultimately show ?thesis using length_advance[of st] by simp
    next
      case False
      with r 5(1) show ?thesis by (simp add: parser_psimps)
    qed
  qed
next
  case (6 st)
  show ?case
  proof (rule shorterI)
    fix a st' assume r: "parseConjunction st = Inr (a, st')"
    then obtain l s where pi: "parseNegation st = Inr (l, s)" and el: "conjunctionLoop l s = Inr (a, st')"
      using 6(1) by (auto simp: parser_psimps split: sum.splits)
    from 6(2) pi have "length (snd s) \<le> length (snd st)" by (rule shorterD)
    moreover from 6(3)[OF pi refl] el have "length (snd st') \<le> length (snd s)" by (rule shorterD)
    ultimately show "length (snd st') \<le> length (snd st)" by simp
  qed
next
  case (7 left st)
  show ?case
  proof (rule shorterI)
    fix a st' assume r: "conjunctionLoop left st = Inr (a, st')"
    show "length (snd st') \<le> length (snd st)"
    proof (cases "matchOperator st AND")
      case True
      with r obtain x s where pi: "parseNegation (advance st) = Inr (x, s)"
        and el: "conjunctionLoop (createConjunction left x) s = Inr (a, st')"
        using 7(1) by (auto simp: parser_psimps split: sum.splits)
      from 7(2)[OF True] pi have "length (snd s) \<le> length (snd (advance st))" by (rule shorterD)
      moreover from 7(3)[OF True pi refl] el have "length (snd st') \<le> length (snd s)" by (rule shorterD)
      ultimately show ?thesis using length_advance[of st] by simp
    next
      case False
      with r 7(1) show ?thesis by (simp add: parser_psimps)
    qed
  qed
next
  case (8 st)
  show ?case
  proof (rule shorterI)
    fix a st' assume r: "parseNegation st = Inr (a, st')"
    show "length (snd st') \<le> length (snd st)"
    proof (cases "matchOperator st NOT")
      case True
      with r obtain x where pi: "parseNegation (advance st) = Inr (x, st')"
        using 8(1) by (auto simp: parser_psimps split: sum.splits)
      from 8(2)[OF True] pi have "length (snd st') \<le> length (snd (advance st))" by (rule shorterD)
      with length_advance[of st] show ?thesis by simp
    next
      case False
      with r 8(1) have "parsePrimary st = Inr (a, st')" by (simp add: parser_psimps)
      with 8(3)[OF False] show ?thesis by (rule shorterD)
    qed
  qed
next
  case (9 st)
  show ?case
  proof (rule shorterI)
    fix a st' assume r: "parsePrimary st = Inr (a, st')"
    show "length (snd st') \<le> length (snd st)"
    proof (cases "currentToken st")
      case None
      with r 9(1) show ?thesis by (simp add: parser_psimps)
    next
      case (Some t)
      show ?thesis
      proof (cases t)
        case (LPAREN p)
        with Some r obtain s where pe: "parseEquivalence (advance st) = Inr (a, s)"
          and c: "consumeRParen s = Inr st'"
          using 9(1) by (auto simp: parser_psimps split: sum.splits)
        from 9(2)[OF Some LPAREN] pe have "length (snd s) \<le> length (snd (advance st))" by (rule shorterD)
        with consumeRParen_length[OF c] length_advance[of st] show ?thesis by simp
      next
        case (IDENTIFIER v p)
        with Some r 9(1) length_advance[of st] show ?thesis by (auto simp: parser_psimps)
      qed (use Some r 9(1) in \<open>simp_all add: parser_psimps\<close>)
    qed
  qed
qed

lemma matchOperator_advance: "matchOperator st op \<Longrightarrow> length (snd (advance st)) < length (snd st)"
  by (induction st op rule: matchOperator.induct) auto

lemma currentToken_advance: "currentToken st = Some t \<Longrightarrow> length (snd (advance st)) < length (snd st)"
  by (induction st rule: currentToken.induct) auto

definition parser_rank :: "(((parser + ASTNode \<times> parser) + parser + parser) +
     (ASTNode \<times> parser + parser) + ASTNode \<times> parser + parser + parser) \<Rightarrow> nat \<times> nat" where
  "parser_rank x =
    (case x of
       Inl (Inl (Inl st)) \<Rightarrow> (length (snd st), 9)
     | Inl (Inl (Inr (l, st))) \<Rightarrow> (length (snd st), 8)
     | Inl (Inr (Inl st)) \<Rightarrow> (length (snd st), 7)
     | Inl (Inr (Inr st)) \<Rightarrow> (length (snd st), 6)
     | Inr (Inl (Inl (l, st))) \<Rightarrow> (length (snd st), 5)
     | Inr (Inl (Inr st)) \<Rightarrow> (length (snd st), 4)
     | Inr (Inr (Inl (l, st))) \<Rightarrow> (length (snd st), 3)
     | Inr (Inr (Inr (Inl st))) \<Rightarrow> (length (snd st), 2)
     | Inr (Inr (Inr (Inr st))) \<Rightarrow> (length (snd st), 1))"

termination parseEquivalence
proof (relation "inv_image (less_than <*lex*> less_than) parser_rank", goal_cases)
  case 1
  show ?case by (intro wf_inv_image wf_lex_prod wf_less_than)
next
  case (3 st b x y)
  from parser_shorter_dom(3)[OF 3(3)] 3(1,2) have "length (snd y) \<le> length (snd st)"
    by (auto dest: shorterD)
  then show ?case by (auto simp: parser_rank_def)
next
  case (5 left st b x y)
  from parser_shorter_dom(3)[OF 5(4)] 5(2,3) have "length (snd y) \<le> length (snd (advance st))"
    by (auto dest: shorterD)
  with matchOperator_advance[OF 5(1)] show ?case by (auto simp: parser_rank_def)
next
  case (7 st b x y)
  from parser_shorter_dom(4)[OF 7(4)] 7(1,2) have "length (snd y) \<le> length (snd st)"
    by (auto dest: shorterD)
  with matchOperator_advance[OF 7(3)] show ?case by (auto simp: parser_rank_def)
next
  case (9 st b x y)
  from parser_shorter_dom(6)[OF 9(3)] 9(1,2) have "length (snd y) \<le> length (snd st)"
    by (auto dest: shorterD)
  then show ?case by (auto simp: parser_rank_def)
next
  case (11 left st b x y)
  from parser_shorter_dom(6)[OF 11(4)] 11(2,3) have "length (snd y) \<le> length (snd (advance st))"
    by (auto dest: shorterD)
  with matchOperator_advance[OF 11(1)] show ?case by (auto simp: parser_rank_def)
next
  case (13 st b x y)
  from parser_shorter_dom(8)[OF 13(3)] 13(1,2) have "length (snd y) \<le> length (snd st)"
    by (auto dest: shorterD)
  then show ?case by (auto simp: parser_rank_def)
next
  case (15 left st b x y)
  from parser_shorter_dom(8)[OF 15(4)] 15(2,3) have "length (snd y) \<le> length (snd (advance st))"
    by (auto dest: shorterD)
  with matchOperator_advance[OF 15(1)] show ?case by (auto simp: parser_rank_def)
qed (auto simp: parser_rank_def dest: matchOperator_advance currentToken_advance)

declare parseEquivalence.simps [simp del] equivalenceLoop.simps [simp del]
  parseImplication.simps [simp del] parseDisjunction.simps [simp del]
  disjunctionLoop.simps [simp del] parseConjunction.simps [simp del]
  conjunctionLoop.simps [simp del] parseNegation.simps [simp del]
  parsePrimary.simps [simp del]

lemmas parser_simps = parseEquivalence.simps equivalenceLoop.simps parseImplication.simps
  parseDisjunction.simps disjunctionLoop.simps parseConjunction.simps conjunctionLoop.simps
  parseNegation.simps parsePrimary.simps

text \<open>
  \<open>parse\<close>: the whole formula, then the check that only the end token is left.
  The parser raises nothing but \<open>ParseError\<close>, so the handler that wraps other
  exceptions has no counterpart here. What that handler does catch in a run is the
  exhaustion of the call stack on a deeply nested formula, which it reports as a
  \<open>ParseError\<close>; the depth of the call stack is not modelled.
\<close>

definition parse :: "token list \<Rightarrow> error + ASTNode" where
  "parse tokens =
     (case parseEquivalence (0, tokens) of
        Inl e \<Rightarrow> Inl e
      | Inr (a, st) \<Rightarrow>
          (case currentToken st of
             None \<Rightarrow> Inr a
           | Some t \<Rightarrow>
               if \<not> isEOF t
               then Inl (ParseError UnexpectedTokenAfterFormula (tokenPosition t) (Some t))
               else Inr a))"

definition parseFormulaFromString :: "jstring \<Rightarrow> error + ASTNode" where
  "parseFormulaFromString input =
     (case tokenize input of Inl e \<Rightarrow> Inl e | Inr tokens \<Rightarrow> parse tokens)"

section \<open>Rendering, normalization and inspection (utilities/formulaAST.js)\<close>

text \<open>
  \<open>toString\<close> of the node classes. A binary node renders the symbol of its operator,
  and the operator's own name when it has no symbol
  (\<open>opSymbols[this.operator] || this.operator\<close>).
\<close>

fun opSymbol :: "operatorType \<Rightarrow> jstring" where
  "opSymbol AND = [8743]"
| "opSymbol OR = [8744]"
| "opSymbol IMPLIES = [8594]"
| "opSymbol IFF = [8596]"
| "opSymbol NOT = js ''not''"

fun astToString :: "ASTNode \<Rightarrow> jstring" where
  "astToString (AtomNode name) = name"
| "astToString (UnaryNode op operand) = js ''~'' @ astToString operand"
| "astToString (BinaryNode op left right) =
     js ''('' @ astToString left @ js '' '' @ opSymbol op @ js '' '' @ astToString right @ js '')''"

text \<open>
  \<open>getAtoms\<close>: the atom names in the order of their first occurrence, collected
  in a \<open>Set\<close>.
\<close>

fun collectAtoms :: "ASTNode \<Rightarrow> jstring list \<Rightarrow> jstring list" where
  "collectAtoms (AtomNode name) atoms = setAdd atoms name"
| "collectAtoms (UnaryNode op operand) atoms = collectAtoms operand atoms"
| "collectAtoms (BinaryNode op left right) atoms = collectAtoms right (collectAtoms left atoms)"

definition getAtoms :: "ASTNode \<Rightarrow> jstring list" where
  "getAtoms a = collectAtoms a []"

fun astEquals :: "ASTNode \<Rightarrow> ASTNode \<Rightarrow> bool" where
  "astEquals (AtomNode n1) (AtomNode n2) = (n1 = n2)"
| "astEquals (UnaryNode op1 a1) (UnaryNode op2 a2) = (op1 = op2 \<and> astEquals a1 a2)"
| "astEquals (BinaryNode op1 l1 r1) (BinaryNode op2 l2 r2) =
     (op1 = op2 \<and> astEquals l1 l2 \<and> astEquals r1 r2)"
| "astEquals a1 a2 = False"

text \<open>\<open>normalizeAST\<close>: a negation of a negation is replaced by the normalized operand.\<close>

fun normalizeAST :: "ASTNode \<Rightarrow> ASTNode" where
  "normalizeAST (AtomNode name) = AtomNode name"
| "normalizeAST (UnaryNode NOT (UnaryNode NOT a)) = normalizeAST a"
| "normalizeAST (UnaryNode op operand) = UnaryNode op (normalizeAST operand)"
| "normalizeAST (BinaryNode op left right) = BinaryNode op (normalizeAST left) (normalizeAST right)"

fun isImplication :: "ASTNode \<Rightarrow> bool" where
  "isImplication (BinaryNode IMPLIES left right) = True"
| "isImplication a = False"

text \<open>\<open>getImplicationParts\<close> returns the pair (antecedent, consequent), or \<open>null\<close>.\<close>

fun getImplicationParts :: "ASTNode \<Rightarrow> (ASTNode \<times> ASTNode) option" where
  "getImplicationParts (BinaryNode IMPLIES left right) = Some (left, right)"
| "getImplicationParts a = None"

section \<open>Parsing a formula string (gentzen.js, utilities/formulaUtils.js)\<close>

text \<open>
  \<open>parseFormula\<close> returns the raw string, the normalized tree and a \<open>toString\<close>
  closure that renders the normalized tree (\<open>formulaToString\<close>).
\<close>

record parsedFormula =
  raw :: jstring
  ast :: ASTNode

definition parseFormula :: "jstring \<Rightarrow> error + parsedFormula" where
  "parseFormula formulaStr =
     (case parseFormulaFromString formulaStr of
        Inl e \<Rightarrow> Inl e
      | Inr a \<Rightarrow> Inr \<lparr>raw = formulaStr, ast = normalizeAST a\<rparr>)"

definition formulaToString :: "parsedFormula \<Rightarrow> jstring" where
  "formulaToString parsed = astToString (ast parsed)"

definition normalizeFormula :: "jstring \<Rightarrow> error + jstring" where
  "normalizeFormula formula =
     (case parseFormula formula of
        Inl e \<Rightarrow> Inl e
      | Inr parsed \<Rightarrow> Inr (formulaToString parsed))"

definition extractFormulaAtoms :: "jstring \<Rightarrow> error + jstring list" where
  "extractFormulaAtoms formula =
     (case parseFormula formula of
        Inl e \<Rightarrow> Inl e
      | Inr parsed \<Rightarrow> Inr (getAtoms (ast parsed)))"

text \<open>\<open>canonicalDoubleNeg\<close>: while the string starts with two tildes, drop them.\<close>

fun canonicalDoubleNeg :: "jstring \<Rightarrow> jstring" where
  "canonicalDoubleNeg (a # b # rest) =
     (if a = 126 \<and> b = 126 then canonicalDoubleNeg rest else a # b # rest)"
| "canonicalDoubleNeg s = s"

text \<open>
  \<open>extractMissingFactsFromFormula\<close>: the atoms the callback rejects, each without its
  leading tildes (\<open>atom.replace(/^~+/, '')\<close>), and whether there is none.
\<close>

definition extractMissingFactsFromFormula ::
  "jstring \<Rightarrow> (jstring \<Rightarrow> bool) \<Rightarrow> error + (bool \<times> jstring list)" where
  "extractMissingFactsFromFormula formula isAtomResolvableCallback =
     (case parseFormula formula of
        Inl e \<Rightarrow> Inl e
      | Inr parsed \<Rightarrow>
          let atoms = getAtoms (ast parsed);
              missing = map (dropWhile (\<lambda>c. c = 126))
                          (filter (\<lambda>atom. \<not> isAtomResolvableCallback atom) atoms)
          in Inr (missing = [], missing))"

section \<open>Derivation state (gentzen.js)\<close>

text \<open>
  A step holds its origin, its rule type, the steps it was derived from and a
  \<open>Set\<close> of formula strings. Steps are never modified once built, so the references
  in the field \<open>from\<close> (here \<open>fromSteps\<close>) are modelled by the steps themselves. Origins, rule types and modes are
  ASCII tags and are written as HOL strings.
\<close>

datatype step = Step (origin: string) (ruleType: string) (fromSteps: "step list")
  (formulas: "jstring list")

text \<open>
  The fields of a \<open>GentzenSystem\<close> that the core reads or writes. The system's own
  \<open>missingFacts\<close> set is the field \<open>trackedMissingFacts\<close> (the search result has a
  \<open>missingFacts\<close> of its own); \<open>skippedSteps\<close> is written by the scenario loader
  only, \<open>proofResults\<close> and \<open>dependencyGraph\<close> are never used and are left out.
\<close>

record GentzenSystem =
  steps :: "step list"
  facts :: "jstring list"
  trackedMissingFacts :: "jstring list"

definition newGentzenSystem :: GentzenSystem where
  "newGentzenSystem = \<lparr>steps = [], facts = [], trackedMissingFacts = []\<rparr>"

definition addFact :: "GentzenSystem \<Rightarrow> jstring \<Rightarrow> GentzenSystem" where
  "addFact sys formulaStr = sys\<lparr>facts := setAdd (facts sys) formulaStr\<rparr>"

definition isFactAvailable :: "GentzenSystem \<Rightarrow> jstring \<Rightarrow> bool" where
  "isFactAvailable sys factName \<longleftrightarrow>
     factName \<in> set (facts sys) \<or> list_ex (\<lambda>s. factName \<in> set (formulas s)) (steps sys)"

definition isAtomResolvable :: "GentzenSystem \<Rightarrow> jstring \<Rightarrow> bool" where
  "isAtomResolvable sys atom =
     (if isFactAvailable sys atom then True
      else if startsWith atom (js ''~'') then \<not> isFactAvailable sys (drop 1 atom)
      else isFactAvailable sys (js ''~'' @ atom))"

definition trackMissingFact :: "GentzenSystem \<Rightarrow> jstring \<Rightarrow> GentzenSystem" where
  "trackMissingFact sys factName =
     sys\<lparr>trackedMissingFacts := setAdd (trackedMissingFacts sys) factName\<rparr>"

definition addProposition :: "GentzenSystem \<Rightarrow> jstring \<Rightarrow> step \<times> GentzenSystem" where
  "addProposition sys formulaStr =
     (let s = Step ''Proposition'' ''fact'' [] (newSet [formulaStr])
      in (s, sys\<lparr>steps := steps sys @ [s]\<rparr>))"

text \<open>
  \<open>isProved\<close>: the normalized target is compared with the normalized form of every
  fact and then of every step formula, in order; normalizing parses, and a string that
  does not parse raises.
\<close>

fun anyNormalizedEqual :: "jstring \<Rightarrow> jstring list \<Rightarrow> error + bool" where
  "anyNormalizedEqual normalizedTarget [] = Inr False"
| "anyNormalizedEqual normalizedTarget (f # fs) =
     (case normalizeFormula f of
        Inl e \<Rightarrow> Inl e
      | Inr normalized \<Rightarrow>
          if normalized = normalizedTarget then Inr True
          else anyNormalizedEqual normalizedTarget fs)"

definition isProved :: "GentzenSystem \<Rightarrow> jstring \<Rightarrow> error + bool" where
  "isProved sys targetFormula =
     (case normalizeFormula targetFormula of
        Inl e \<Rightarrow> Inl e
      | Inr normalizedTarget \<Rightarrow>
          (case anyNormalizedEqual normalizedTarget (facts sys) of
             Inl e \<Rightarrow> Inl e
           | Inr True \<Rightarrow> Inr True
           | Inr False \<Rightarrow>
               anyNormalizedEqual normalizedTarget (concat (map formulas (steps sys)))))"

definition canResolveFormula :: "GentzenSystem \<Rightarrow> jstring \<Rightarrow> error + (bool \<times> jstring list)" where
  "canResolveFormula sys formula =
     extractMissingFactsFromFormula formula (\<lambda>atom. isAtomResolvable sys atom)"

section \<open>Inference rules (gentzen.js)\<close>

text \<open>\<open>getUniqueFormula\<close>: the single formula of a step, or an error.\<close>

definition getUniqueFormula :: "step \<Rightarrow> error + jstring" where
  "getUniqueFormula s =
     (case formulas s of
        [f] \<Rightarrow> Inr f
      | _ \<Rightarrow> Inl (RuleError NotExactlyOneFormula))"

text \<open>
  A rule is a method that mutates the system it is called on and returns the new step,
  or raises. The model returns the outcome together with the system as the call leaves
  it, so that what an exception leaves behind can be stated. The parameter
  \<open>ruleType\<close> of \<open>alphaRule\<close> is written \<open>ruleType'\<close>, the plain name being
  the field of a step.
\<close>

definition pushStep :: "GentzenSystem \<Rightarrow> step \<Rightarrow> (error + step) \<times> GentzenSystem" where
  "pushStep sys newStep = (Inr newStep, sys\<lparr>steps := steps sys @ [newStep]\<rparr>)"

definition alphaRule ::
  "GentzenSystem \<Rightarrow> step \<Rightarrow> step \<Rightarrow> string \<Rightarrow> (error + step) \<times> GentzenSystem" where
  "alphaRule sys step1 step2 ruleType' =
     (case getUniqueFormula step1 of
        Inl e \<Rightarrow> (Inl e, sys)
      | Inr A \<Rightarrow>
     (case getUniqueFormula step2 of
        Inl e \<Rightarrow> (Inl e, sys)
      | Inr B \<Rightarrow>
          if ruleType' = ''and'' then
            pushStep sys (Step ''AlphaRule'' ruleType' [step1, step2]
              (newSet [js ''('' @ A @ [32, 8743, 32] @ B @ js '')'']))
          else if ruleType' = ''implies'' then
            pushStep sys (Step ''AlphaRule'' ruleType' [step1, step2]
              (newSet [js ''('' @ A @ [32, 8594, 32] @ B @ js '')'']))
          else (Inl (RuleError UnknownAlphaSubtype), sys)))"

definition betaRule :: "GentzenSystem \<Rightarrow> step \<Rightarrow> step \<Rightarrow> (error + step) \<times> GentzenSystem" where
  "betaRule sys step1 step2 =
     (case getUniqueFormula step1 of
        Inl e \<Rightarrow> (Inl e, sys)
      | Inr A \<Rightarrow>
     (case getUniqueFormula step2 of
        Inl e \<Rightarrow> (Inl e, sys)
      | Inr B \<Rightarrow>
          pushStep sys (Step ''BetaRule'' ''or'' [step1, step2]
            (newSet [js ''('' @ A @ [32, 8744, 32] @ B @ js '')'']))))"

definition contrapositionRule :: "GentzenSystem \<Rightarrow> step \<Rightarrow> (error + step) \<times> GentzenSystem" where
  "contrapositionRule sys s =
     (case getUniqueFormula s of
        Inl e \<Rightarrow> (Inl e, sys)
      | Inr f \<Rightarrow>
     (case parseFormula f of
        Inl e \<Rightarrow> (Inl e, sys)
      | Inr parsed \<Rightarrow>
     (case getImplicationParts (ast parsed) of
        None \<Rightarrow> (Inl (RuleError NotAnImplication), sys)
      | Some (antecedent, consequent) \<Rightarrow>
          let negatedConsequent = negate consequent;
              negatedAntecedent = negate antecedent;
              contrapositive = createImplication negatedConsequent negatedAntecedent;
              newFormula = astToString contrapositive
          in pushStep sys (Step ''ContrapositionRule'' ''contraposition'' [s]
               (newSet [newFormula])))))"

text \<open>The mode defaults to \<open>'introduction'\<close>; every other mode eliminates.\<close>

definition doubleNegationRule ::
  "GentzenSystem \<Rightarrow> step \<Rightarrow> string \<Rightarrow> (error + step) \<times> GentzenSystem" where
  "doubleNegationRule sys s mode =
     (case getUniqueFormula s of
        Inl e \<Rightarrow> (Inl e, sys)
      | Inr f \<Rightarrow>
          let newFormula =
                (if mode = ''introduction''
                 then (if startsWith f (js ''~~'') then f else js ''~~'' @ f)
                 else (if startsWith f (js ''~~'') then drop 2 f else f))
          in pushStep sys (Step ''DoubleNegationRule''
               (if mode = ''introduction'' then ''doubleNegIntro'' else ''doubleNegElim'') [s]
               (newSet [newFormula])))"

definition equivalenceRule ::
  "GentzenSystem \<Rightarrow> step \<Rightarrow> step \<Rightarrow> (error + step) \<times> GentzenSystem" where
  "equivalenceRule sys step1 step2 =
     (case getUniqueFormula step1 of
        Inl e \<Rightarrow> (Inl e, sys)
      | Inr A \<Rightarrow>
     (case getUniqueFormula step2 of
        Inl e \<Rightarrow> (Inl e, sys)
      | Inr B \<Rightarrow>
          pushStep sys (Step ''EquivalenceRule'' ''equiv'' [step1, step2]
            (newSet [js ''('' @ A @ [32, 8596, 32] @ B @ js '')'']))))"

section \<open>Closed-world resolvability\<close>

lemma js_tilde: "js ''~'' = [126]"
  by (simp add: js_def)

lemma startsWith_tilde: "startsWith a [126] \<longleftrightarrow> (\<exists>b. a = 126 # b)"
  by (cases a) auto

text \<open>
  Claim C5. \<open>isAtomResolvable\<close> is closed-world auto-negation: an available atom is
  resolvable; an unavailable atom that starts with a tilde is resolvable exactly when
  the atom without the tilde is not available; an unavailable atom without a tilde is
  resolvable exactly when the atom with a tilde in front is available. With the
  single fact \<open>X\<close>, the atoms \<open>X\<close> and \<open>~Y\<close> are resolvable and \<open>~X\<close> and \<open>Y\<close>
  are not.
\<close>

theorem isAtomResolvable_closed_world:
  "(isFactAvailable sys a \<longrightarrow> isAtomResolvable sys a)
   \<and> (\<not> isFactAvailable sys a \<and> startsWith a (js ''~'') \<longrightarrow>
        (isAtomResolvable sys a \<longleftrightarrow> \<not> isFactAvailable sys (drop 1 a)))
   \<and> (\<not> isFactAvailable sys a \<and> \<not> startsWith a (js ''~'') \<longrightarrow>
        (isAtomResolvable sys a \<longleftrightarrow> isFactAvailable sys (js ''~'' @ a)))
   \<and> isAtomResolvable (addFact newGentzenSystem (js ''X'')) (js ''X'')
   \<and> \<not> isAtomResolvable (addFact newGentzenSystem (js ''X'')) (js ''~X'')
   \<and> \<not> isAtomResolvable (addFact newGentzenSystem (js ''X'')) (js ''Y'')
   \<and> isAtomResolvable (addFact newGentzenSystem (js ''X'')) (js ''~Y'')"
  by (simp add: isAtomResolvable_def isFactAvailable_def addFact_def newGentzenSystem_def
      setAdd_def js_def)

theorem isAtomResolvable_closed_world_witness:
  "isFactAvailable (addFact newGentzenSystem (js ''~Y'')) (js ''~Y'')
   \<and> isAtomResolvable (addFact newGentzenSystem (js ''~Y'')) (js ''~Y'')
   \<and> \<not> isFactAvailable (addFact newGentzenSystem (js ''~Y'')) (js ''Y'')
   \<and> \<not> startsWith (js ''Y'') (js ''~'')
   \<and> isAtomResolvable (addFact newGentzenSystem (js ''~Y'')) (js ''Y'')
   \<and> \<not> isFactAvailable (addFact newGentzenSystem (js ''X'')) (js ''~X'')
   \<and> startsWith (js ''~X'') (js ''~'')
   \<and> \<not> isAtomResolvable (addFact newGentzenSystem (js ''X'')) (js ''~X'')"
  using isAtomResolvable_closed_world [of "addFact newGentzenSystem (js ''~Y'')" "js ''~Y''"]
    isAtomResolvable_closed_world [of "addFact newGentzenSystem (js ''~Y'')" "js ''Y''"]
    isAtomResolvable_closed_world [of "addFact newGentzenSystem (js ''X'')" "js ''~X''"]
  by (simp add: isFactAvailable_def addFact_def newGentzenSystem_def setAdd_def js_def)

section \<open>Evaluation of concrete formulas\<close>

lemmas lexer_eval = tokenize_def tokenizeLoop.simps trim_def js_def isWhitespace_def
  startsOperator_def OPERATOR_MAPPINGS_def readOperator_def operatorsByLength_eq
  readIdentifier_def isLetter_def isIdentChar_def

lemmas parser_eval = parseFormula_def parseFormulaFromString_def parse_def parser_simps
  createAtom_def negate_def createConjunction_def createDisjunction_def
  createImplication_def createEquivalence_def formulaToString_def normalizeFormula_def

lemmas rule_eval = getUniqueFormula_def pushStep_def newSet_def setAdd_def

section \<open>Precedence and associativity\<close>

text \<open>
  Claim C8. Conjunction binds tighter than disjunction, disjunction binds tighter than
  implication, and implication associates to the right: the three formulas of the
  claim parse to the trees, and render to the strings, that the claim gives.
\<close>

theorem parser_precedence:
  "(\<exists>p. parseFormula (js ''A '' @ [8743] @ js '' B '' @ [8744] @ js '' C'') = Inr p
        \<and> ast p = BinaryNode OR (BinaryNode AND (AtomNode (js ''A'')) (AtomNode (js ''B'')))
                    (AtomNode (js ''C''))
        \<and> formulaToString p = js ''((A '' @ [8743] @ js '' B) '' @ [8744] @ js '' C)'')
   \<and> (\<exists>p. parseFormula (js ''A '' @ [8744] @ js '' B '' @ [8594] @ js '' C'') = Inr p
        \<and> ast p = BinaryNode IMPLIES (BinaryNode OR (AtomNode (js ''A'')) (AtomNode (js ''B'')))
                    (AtomNode (js ''C''))
        \<and> formulaToString p = js ''((A '' @ [8744] @ js '' B) '' @ [8594] @ js '' C)'')
   \<and> (\<exists>p. parseFormula (js ''A '' @ [8594] @ js '' B '' @ [8594] @ js '' C'') = Inr p
        \<and> ast p = BinaryNode IMPLIES (AtomNode (js ''A''))
                    (BinaryNode IMPLIES (AtomNode (js ''B'')) (AtomNode (js ''C'')))
        \<and> formulaToString p = js ''(A '' @ [8594] @ js '' (B '' @ [8594] @ js '' C))'')"
  by (simp add: lexer_eval parser_eval)

section \<open>Double negation\<close>

text \<open>
  Claim C9. On a step that holds the single formula \<open>f\<close>, \<open>doubleNegationRule\<close>
  appends and returns a step that holds, in introduction mode, \<open>f\<close> itself when
  \<open>f\<close> starts with two tildes and \<open>f\<close> with two tildes in front otherwise, and,
  in elimination mode, \<open>f\<close> without its first two characters when \<open>f\<close> starts
  with two tildes and \<open>f\<close> itself otherwise. Parsing collapses double negations:
  \<open>~~~~X\<close> renders as \<open>X\<close> and \<open>~~~X\<close> as \<open>~X\<close>.
\<close>

theorem doubleNegationRule_result:
  "formulas s = [f] \<Longrightarrow>
     doubleNegationRule sys s ''introduction'' =
       (let newStep = Step ''DoubleNegationRule'' ''doubleNegIntro'' [s]
                        [if startsWith f (js ''~~'') then f else js ''~~'' @ f]
        in (Inr newStep, sys\<lparr>steps := steps sys @ [newStep]\<rparr>))
   \<and> doubleNegationRule sys s ''elimination'' =
       (let newStep = Step ''DoubleNegationRule'' ''doubleNegElim'' [s]
                        [if startsWith f (js ''~~'') then drop 2 f else f]
        in (Inr newStep, sys\<lparr>steps := steps sys @ [newStep]\<rparr>))
   \<and> normalizeFormula (js ''~~~~X'') = Inr (js ''X'')
   \<and> normalizeFormula (js ''~~~X'') = Inr (js ''~X'')"
proof -
  assume f: "formulas s = [f]"
  have parse4: "normalizeFormula (js ''~~~~X'') = Inr (js ''X'')"
    by (simp add: lexer_eval parser_eval)
  have parse3: "normalizeFormula (js ''~~~X'') = Inr (js ''~X'')"
    by (simp add: lexer_eval parser_eval)
  from f have intro: "doubleNegationRule sys s ''introduction'' =
       (let newStep = Step ''DoubleNegationRule'' ''doubleNegIntro'' [s]
                        [if startsWith f (js ''~~'') then f else js ''~~'' @ f]
        in (Inr newStep, sys\<lparr>steps := steps sys @ [newStep]\<rparr>))"
    by (simp add: doubleNegationRule_def rule_eval Let_def)
  from f have elim: "doubleNegationRule sys s ''elimination'' =
       (let newStep = Step ''DoubleNegationRule'' ''doubleNegElim'' [s]
                        [if startsWith f (js ''~~'') then drop 2 f else f]
        in (Inr newStep, sys\<lparr>steps := steps sys @ [newStep]\<rparr>))"
    by (simp add: doubleNegationRule_def rule_eval Let_def)
  from intro elim parse4 parse3 show ?thesis by simp
qed

theorem doubleNegationRule_result_witness:
  "formulas (Step ''Proposition'' ''fact'' [] [js ''~~A'']) = [js ''~~A'']
   \<and> fst (doubleNegationRule newGentzenSystem (Step ''Proposition'' ''fact'' [] [js ''~~A''])
          ''introduction'')
       = Inr (Step ''DoubleNegationRule'' ''doubleNegIntro''
               [Step ''Proposition'' ''fact'' [] [js ''~~A'']] [js ''~~A''])
   \<and> fst (doubleNegationRule newGentzenSystem (Step ''Proposition'' ''fact'' [] [js ''~~A''])
          ''elimination'')
       = Inr (Step ''DoubleNegationRule'' ''doubleNegElim''
               [Step ''Proposition'' ''fact'' [] [js ''~~A'']] [js ''A''])"
  using doubleNegationRule_result
    [of "Step ''Proposition'' ''fact'' [] [js ''~~A'']" "js ''~~A''" newGentzenSystem]
  by (simp add: js_def Let_def)

section \<open>Contraposition\<close>

text \<open>
  Claim C7. On a step that holds the single formula \<open>f\<close>: when \<open>f\<close> parses as an
  implication with antecedent \<open>A\<close> and consequent \<open>B\<close>, \<open>contrapositionRule\<close>
  appends and returns a step that holds exactly the rendering of the implication from
  the negated \<open>B\<close> to the negated \<open>A\<close>, which is the string made of an opening
  parenthesis, a tilde, the rendering of \<open>B\<close>, the arrow between two spaces, a tilde,
  the rendering of \<open>A\<close> and a closing parenthesis; when \<open>f\<close> parses as a formula that
  is not an implication, the rule raises the rule-application error
  \<open>NotAnImplication\<close> and appends nothing.
\<close>

theorem contrapositionRule_result:
  "formulas s = [f] \<Longrightarrow> parseFormula f = Inr p \<Longrightarrow>
     (\<forall>A B. ast p = BinaryNode IMPLIES A B \<longrightarrow>
        contrapositionRule sys s =
          (let newStep = Step ''ContrapositionRule'' ''contraposition'' [s]
                           [astToString (BinaryNode IMPLIES (UnaryNode NOT B) (UnaryNode NOT A))]
           in (Inr newStep, sys\<lparr>steps := steps sys @ [newStep]\<rparr>))
        \<and> astToString (BinaryNode IMPLIES (UnaryNode NOT B) (UnaryNode NOT A)) =
            js ''(~'' @ astToString B @ [32, 8594, 32] @ js ''~'' @ astToString A @ js '')'')
   \<and> (\<not> isImplication (ast p) \<longrightarrow>
        contrapositionRule sys s = (Inl (RuleError NotAnImplication), sys))"
proof -
  assume f: "formulas s = [f]" and p: "parseFormula f = Inr p"
  have impl: "contrapositionRule sys s =
          (let newStep = Step ''ContrapositionRule'' ''contraposition'' [s]
                           [astToString (BinaryNode IMPLIES (UnaryNode NOT B) (UnaryNode NOT A))]
           in (Inr newStep, sys\<lparr>steps := steps sys @ [newStep]\<rparr>))"
    if "ast p = BinaryNode IMPLIES A B" for A B
    using f p that
    by (simp add: contrapositionRule_def rule_eval Let_def negate_def createImplication_def)
  have render: "astToString (BinaryNode IMPLIES (UnaryNode NOT B) (UnaryNode NOT A)) =
            js ''(~'' @ astToString B @ [32, 8594, 32] @ js ''~'' @ astToString A @ js '')''"
    for A B
    by (simp add: js_def)
  have other: "contrapositionRule sys s = (Inl (RuleError NotAnImplication), sys)"
    if "\<not> isImplication (ast p)"
  proof -
    from that have "getImplicationParts (ast p) = None"
      by (cases "ast p" rule: isImplication.cases) auto
    with f p show ?thesis
      by (simp add: contrapositionRule_def rule_eval)
  qed
  from impl render other show ?thesis by blast
qed

theorem contrapositionRule_result_witness:
  "formulas (Step ''Proposition'' ''fact'' [] [js ''(A '' @ [8594] @ js '' B)'']) =
     [js ''(A '' @ [8594] @ js '' B)'']
   \<and> parseFormula (js ''(A '' @ [8594] @ js '' B)'') =
       Inr \<lparr>raw = js ''(A '' @ [8594] @ js '' B)'',
            ast = BinaryNode IMPLIES (AtomNode (js ''A'')) (AtomNode (js ''B''))\<rparr>
   \<and> fst (contrapositionRule newGentzenSystem
            (Step ''Proposition'' ''fact'' [] [js ''(A '' @ [8594] @ js '' B)'']))
       = Inr (Step ''ContrapositionRule'' ''contraposition''
               [Step ''Proposition'' ''fact'' [] [js ''(A '' @ [8594] @ js '' B)'']]
               [js ''(~B '' @ [8594] @ js '' ~A)''])
   \<and> formulas (Step ''Proposition'' ''fact'' [] [js ''A'']) = [js ''A'']
   \<and> parseFormula (js ''A'') = Inr \<lparr>raw = js ''A'', ast = AtomNode (js ''A'')\<rparr>
   \<and> \<not> isImplication (AtomNode (js ''A''))
   \<and> contrapositionRule newGentzenSystem (Step ''Proposition'' ''fact'' [] [js ''A''])
       = (Inl (RuleError NotAnImplication), newGentzenSystem)"
proof -
  have p1: "parseFormula (js ''(A '' @ [8594] @ js '' B)'') =
       Inr \<lparr>raw = js ''(A '' @ [8594] @ js '' B)'',
            ast = BinaryNode IMPLIES (AtomNode (js ''A'')) (AtomNode (js ''B''))\<rparr>"
    by (simp add: lexer_eval parser_eval)
  have p2: "parseFormula (js ''A'') = Inr \<lparr>raw = js ''A'', ast = AtomNode (js ''A'')\<rparr>"
    by (simp add: lexer_eval parser_eval)
  have f1: "formulas (Step ''Proposition'' ''fact'' [] [js ''(A '' @ [8594] @ js '' B)'']) =
     [js ''(A '' @ [8594] @ js '' B)'']" by simp
  have f2: "formulas (Step ''Proposition'' ''fact'' [] [js ''A'']) = [js ''A'']" by simp
  from contrapositionRule_result [OF f1 p1, of newGentzenSystem]
       contrapositionRule_result [OF f2 p2, of newGentzenSystem] p1 p2
  show ?thesis by (simp add: js_def Let_def)
qed

section \<open>Rule applications that raise\<close>

text \<open>
  Claim C10. Each of the five rules is atomic on error: when \<open>alphaRule\<close>,
  \<open>betaRule\<close>, \<open>equivalenceRule\<close>, \<open>contrapositionRule\<close> or
  \<open>doubleNegationRule\<close> raises, the system is as it was before the call, so no step
  was appended and the facts are as they were.
\<close>

theorem rules_atomic_on_error:
  "(fst (alphaRule sys s1 s2 rt) = Inl e \<longrightarrow> snd (alphaRule sys s1 s2 rt) = sys)
   \<and> (fst (betaRule sys s1 s2) = Inl e \<longrightarrow> snd (betaRule sys s1 s2) = sys)
   \<and> (fst (equivalenceRule sys s1 s2) = Inl e \<longrightarrow> snd (equivalenceRule sys s1 s2) = sys)
   \<and> (fst (contrapositionRule sys s1) = Inl e \<longrightarrow> snd (contrapositionRule sys s1) = sys)
   \<and> (fst (doubleNegationRule sys s1 mode) = Inl e \<longrightarrow>
        snd (doubleNegationRule sys s1 mode) = sys)"
  by (auto simp: alphaRule_def betaRule_def equivalenceRule_def contrapositionRule_def
      doubleNegationRule_def pushStep_def Let_def split: sum.splits option.splits if_splits)

theorem rules_atomic_on_error_witness:
  "fst (alphaRule newGentzenSystem (Step ''Proposition'' ''fact'' [] []) (Step ''Proposition'' ''fact'' [] []) ''and'')
     = Inl (RuleError NotExactlyOneFormula)
   \<and> snd (alphaRule newGentzenSystem (Step ''Proposition'' ''fact'' [] []) (Step ''Proposition'' ''fact'' [] []) ''and'')
     = newGentzenSystem
   \<and> fst (betaRule newGentzenSystem (Step ''Proposition'' ''fact'' [] []) (Step ''Proposition'' ''fact'' [] []))
     = Inl (RuleError NotExactlyOneFormula)
   \<and> snd (betaRule newGentzenSystem (Step ''Proposition'' ''fact'' [] []) (Step ''Proposition'' ''fact'' [] []))
     = newGentzenSystem
   \<and> fst (equivalenceRule newGentzenSystem (Step ''Proposition'' ''fact'' [] []) (Step ''Proposition'' ''fact'' [] []))
     = Inl (RuleError NotExactlyOneFormula)
   \<and> snd (equivalenceRule newGentzenSystem (Step ''Proposition'' ''fact'' [] []) (Step ''Proposition'' ''fact'' [] []))
     = newGentzenSystem
   \<and> fst (contrapositionRule newGentzenSystem (Step ''Proposition'' ''fact'' [] []))
     = Inl (RuleError NotExactlyOneFormula)
   \<and> snd (contrapositionRule newGentzenSystem (Step ''Proposition'' ''fact'' [] []))
     = newGentzenSystem
   \<and> fst (doubleNegationRule newGentzenSystem (Step ''Proposition'' ''fact'' [] []) ''introduction'')
     = Inl (RuleError NotExactlyOneFormula)
   \<and> snd (doubleNegationRule newGentzenSystem (Step ''Proposition'' ''fact'' [] []) ''introduction'')
     = newGentzenSystem"
proof -
  let ?s = "Step ''Proposition'' ''fact'' [] []"
  let ?e = "RuleError NotExactlyOneFormula"
  have a: "fst (alphaRule newGentzenSystem ?s ?s ''and'') = Inl ?e"
    by (simp add: alphaRule_def getUniqueFormula_def)
  have b: "fst (betaRule newGentzenSystem ?s ?s) = Inl ?e"
    by (simp add: betaRule_def getUniqueFormula_def)
  have c: "fst (equivalenceRule newGentzenSystem ?s ?s) = Inl ?e"
    by (simp add: equivalenceRule_def getUniqueFormula_def)
  have d: "fst (contrapositionRule newGentzenSystem ?s) = Inl ?e"
    by (simp add: contrapositionRule_def getUniqueFormula_def)
  have i: "fst (doubleNegationRule newGentzenSystem ?s ''introduction'') = Inl ?e"
    by (simp add: doubleNegationRule_def getUniqueFormula_def)
  from a b c d i
    rules_atomic_on_error [of newGentzenSystem ?s ?s "''and''" ?e "''introduction''"]
  show ?thesis by blast
qed

section \<open>Atom names and lexical errors\<close>

text \<open>
  The atom-name pattern of the specification, \<open>[A-Za-z][A-Za-z0-9_]*\<close> matched
  against a whole string, and the property of starting with one of the five keyword
  aliases of the operators.
\<close>

definition matchesAtomPattern :: "jstring \<Rightarrow> bool" where
  "matchesAtomPattern s =
     (case s of [] \<Rightarrow> False | c # cs \<Rightarrow> isLetter c \<and> list_all isIdentChar cs)"

definition startsWithKeyword :: "jstring \<Rightarrow> bool" where
  "startsWithKeyword s =
     list_ex (startsWith s) [js ''AND'', js ''OR'', js ''IMPLIES'', js ''IFF'', js ''NOT'']"

lemma isLetter_isIdentChar: "isLetter c \<Longrightarrow> isIdentChar c"
  by (simp add: isIdentChar_def)

lemma isIdentChar_not_whitespace: "isIdentChar c \<Longrightarrow> \<not> isWhitespace c"
  by (auto simp: isIdentChar_def isLetter_def isWhitespace_def)

lemma atom_startsOperator:
  assumes "isLetter c"
  shows "startsOperator (c # cs) \<longleftrightarrow> startsWithKeyword (c # cs)"
proof -
  from assms have "c \<noteq> 8743" "c \<noteq> 38" "c \<noteq> 8744" "c \<noteq> 124" "c \<noteq> 8594" "c \<noteq> 45"
    "c \<noteq> 61" "c \<noteq> 8596" "c \<noteq> 60" "c \<noteq> 126" "c \<noteq> 33"
    by (auto simp: isLetter_def)
  then show ?thesis
    by (simp add: startsOperator_def startsWithKeyword_def OPERATOR_MAPPINGS_def js_def)
qed














section \<open>Bounded proof search (gentzen.js)\<close>

definition MAX_ITERATIONS :: nat where "MAX_ITERATIONS = 1000"

definition MAX_QUEUE_SIZE :: nat where "MAX_QUEUE_SIZE = 1000"

definition MAX_STEPS :: nat where "MAX_STEPS = 100"

text \<open>
  \<open>cloneSystem\<close> builds a new system with copies of the facts and of the steps; the
  other fields are those of a fresh system. A copy of a \<open>Set\<close> is an equal set.
\<close>

definition cloneSystem :: "GentzenSystem \<Rightarrow> GentzenSystem" where
  "cloneSystem system =
     newGentzenSystem
       \<lparr>facts := facts system,
        steps := map (\<lambda>s. Step (origin s) (ruleType s) (fromSteps s) (formulas s)) (steps system)\<rparr>"

text \<open>\<open>Array.prototype.join\<close>.\<close>

fun join :: "jstring list \<Rightarrow> jstring \<Rightarrow> jstring" where
  "join [] sep = []"
| "join [x] sep = x"
| "join (x # y # ys) sep = x @ sep @ join (y # ys) sep"

definition getSystemSignature :: "GentzenSystem \<Rightarrow> jstring" where
  "getSystemSignature system =
     (let collected = map canonicalDoubleNeg (concat (map formulas (steps system)))
                      @ map canonicalDoubleNeg (facts system);
          uniqueSorted = sort (newSet collected)
      in join uniqueSorted (js '' | ''))"

definition didWeDeriveNewFormula ::
  "GentzenSystem \<Rightarrow> GentzenSystem \<Rightarrow> step option \<Rightarrow> bool" where
  "didWeDeriveNewFormula originalSystem newSystem newStep =
     (case newStep of
        None \<Rightarrow> False
      | Some st \<Rightarrow>
          let known = newSet (map canonicalDoubleNeg (concat (map formulas (steps originalSystem)))
                              @ map canonicalDoubleNeg (facts originalSystem))
          in list_ex (\<lambda>f. canonicalDoubleNeg f \<notin> set known) (formulas st))"

text \<open>
  \<open>expandOneLevel\<close>. Each attempt works on a clone; an attempt whose rule raises is
  dropped by the \<open>catch\<close>, and so is one that derives no new formula. The rule
  combinations are the object literals of the source, an absent \<open>subtype\<close> or
  \<open>mode\<close> being the empty tag (it is never read).
\<close>

definition binaryCombos :: "(string \<times> string) list" where
  "binaryCombos = [(''alpha'', ''and''), (''alpha'', ''implies''), (''beta'', ''''),
                   (''equivalence'', '''')]"

definition unaryCombos :: "(string \<times> string) list" where
  "unaryCombos = [(''contraposition'', ''''), (''doubleNegation'', ''introduction''),
                  (''doubleNegation'', ''elimination'')]"

definition keepIfNew ::
  "GentzenSystem \<Rightarrow> (error + step) \<times> GentzenSystem \<Rightarrow> GentzenSystem list" where
  "keepIfNew sys attempt =
     (case attempt of
        (Inl e, sysClone) \<Rightarrow> []
      | (Inr newStep, sysClone) \<Rightarrow>
          if didWeDeriveNewFormula sys sysClone (Some newStep) then [sysClone] else [])"

definition tryBinary :: "GentzenSystem \<Rightarrow> nat \<Rightarrow> nat \<Rightarrow> string \<times> string \<Rightarrow> GentzenSystem list" where
  "tryBinary sys i j combo =
     (let sysClone = cloneSystem sys; (rule, subtype) = combo
      in keepIfNew sys
           (if rule = ''alpha'' then
              alphaRule sysClone (steps sysClone ! i) (steps sysClone ! j) subtype
            else if rule = ''beta'' then
              betaRule sysClone (steps sysClone ! i) (steps sysClone ! j)
            else equivalenceRule sysClone (steps sysClone ! i) (steps sysClone ! j)))"

definition tryUnary :: "GentzenSystem \<Rightarrow> nat \<Rightarrow> string \<times> string \<Rightarrow> GentzenSystem list" where
  "tryUnary sys i combo =
     (let sysClone = cloneSystem sys; (rule, mode) = combo
      in keepIfNew sys
           (if rule = ''contraposition'' then contrapositionRule sysClone (steps sysClone ! i)
            else doubleNegationRule sysClone (steps sysClone ! i) mode))"

definition expandOneLevel :: "GentzenSystem \<Rightarrow> GentzenSystem list" where
  "expandOneLevel sys =
     (if length (steps sys) \<ge> MAX_STEPS then []
      else let stepCount = length (steps sys)
           in concat (map (\<lambda>i. concat (map (\<lambda>j. concat (map (tryBinary sys i j) binaryCombos))
                                           [0..<stepCount]))
                         [0..<stepCount])
              @ concat (map (\<lambda>i. concat (map (tryUnary sys i) unaryCombos)) [0..<stepCount]))"

text \<open>
  The result object. The entries of \<open>path\<close> are the strings \<open>final_step\<close> and
  \<open>step_n\<close>, modelled by \<open>FinalStep\<close> and \<open>StepLabel n\<close>; \<open>skippedSteps\<close> is
  always the empty array.
\<close>

datatype pathLabel = FinalStep | StepLabel nat

record searchResult =
  proven :: bool
  path :: "pathLabel list"
  missingFacts :: "jstring list"
  skippedSteps :: "unit list"
  depth :: nat

definition initialResult :: searchResult where
  "initialResult = \<lparr>proven = False, path = [], missingFacts = [], skippedSteps = [], depth = 0\<rparr>"

type_synonym queueItem = "GentzenSystem \<times> nat \<times> pathLabel list"

text \<open>
  The \<open>for\<close> loop over the children of a dequeued state: it returns from the search
  when a child proves the target (left), and otherwise leaves the queue and the visited
  set extended by the children with a new signature (right). \<open>isProved\<close> may raise.
\<close>

fun processChildren ::
  "jstring \<Rightarrow> nat \<Rightarrow> pathLabel list \<Rightarrow> GentzenSystem list \<Rightarrow> queueItem list \<Rightarrow> jstring list
   \<Rightarrow> error + (searchResult + queueItem list \<times> jstring list)" where
  "processChildren targetFormula d p [] queue visited = Inr (Inr (queue, visited))"
| "processChildren targetFormula d p (child # children) queue visited =
     (case isProved child targetFormula of
        Inl e \<Rightarrow> Inl e
      | Inr True \<Rightarrow>
          Inr (Inl (initialResult\<lparr>proven := True, path := p @ [FinalStep], depth := d + 1\<rparr>))
      | Inr False \<Rightarrow>
          let sig = getSystemSignature child
          in if sig \<notin> set visited
             then processChildren targetFormula d p children
                    (queue @ [(child, d + 1, p @ [StepLabel (d + 1)])]) (setAdd visited sig)
             else processChildren targetFormula d p children queue visited)"

text \<open>
  The \<open>while\<close> loop of \<open>searchForProof\<close>, with the iteration counter, the queue and
  the visited set as its state. Nothing in its definition presupposes that it ends: a
  run that does not return is the value \<open>None\<close>. The expansion method is a parameter,
  so that a statement can say that an outcome does not depend on it;
  \<open>searchForProof\<close> passes \<open>expandOneLevel\<close>. The bound \<open>maxDepth\<close> is a
  JavaScript number supplied by the caller and is modelled by an integer.
\<close>

partial_function (option) searchLoop ::
  "(GentzenSystem \<Rightarrow> GentzenSystem list) \<Rightarrow> jstring \<Rightarrow> int \<Rightarrow> nat \<Rightarrow> queueItem list
   \<Rightarrow> jstring list \<Rightarrow> (error + searchResult) option" where
  "searchLoop expand targetFormula maxDepth iterations queue visited =
     (case queue of
        [] \<Rightarrow> Some (Inr initialResult)
      | item # rest \<Rightarrow>
          if iterations + 1 > MAX_ITERATIONS \<or> length queue > MAX_QUEUE_SIZE
          then Some (Inr initialResult)
          else
            (case item of (system, d, p) \<Rightarrow>
            (case isProved system targetFormula of
               Inl e \<Rightarrow> Some (Inl e)
             | Inr isProven \<Rightarrow>
                 if isProven
                 then Some (Inr (initialResult\<lparr>proven := True, path := p, depth := d\<rparr>))
                 else if int d \<ge> maxDepth
                 then searchLoop expand targetFormula maxDepth (iterations + 1) rest visited
                 else
                   (case processChildren targetFormula d p (expand system) rest visited of
                      Inl e \<Rightarrow> Some (Inl e)
                    | Inr (Inl found) \<Rightarrow> Some (Inr found)
                    | Inr (Inr (queue', visited')) \<Rightarrow>
                        searchLoop expand targetFormula maxDepth (iterations + 1)
                          queue' visited'))))"

text \<open>
  \<open>searchForProof\<close> returns the result object and, on the early exit for missing
  facts, records them in the system; the model returns the result together with the
  system as the call leaves it.
\<close>

definition searchForProofWith ::
  "(GentzenSystem \<Rightarrow> GentzenSystem list) \<Rightarrow> GentzenSystem \<Rightarrow> jstring \<Rightarrow> int
   \<Rightarrow> (error + searchResult \<times> GentzenSystem) option" where
  "searchForProofWith expand sys targetFormula maxDepth =
     (case isProved sys targetFormula of
        Inl e \<Rightarrow> Some (Inl e)
      | Inr True \<Rightarrow> Some (Inr (initialResult\<lparr>proven := True\<rparr>, sys))
      | Inr False \<Rightarrow>
          (case canResolveFormula sys targetFormula of
             Inl e \<Rightarrow> Some (Inl e)
           | Inr (canResolve, missing) \<Rightarrow>
               if \<not> canResolve
               then Some (Inr (initialResult\<lparr>missingFacts := missing\<rparr>,
                               foldl trackMissingFact sys missing))
               else
                 (case searchLoop expand targetFormula maxDepth 0 [(sys, 0, [])]
                         (newSet [getSystemSignature sys]) of
                    None \<Rightarrow> None
                  | Some (Inl e) \<Rightarrow> Some (Inl e)
                  | Some (Inr r) \<Rightarrow> Some (Inr (r, sys)))))"

definition searchForProof ::
  "GentzenSystem \<Rightarrow> jstring \<Rightarrow> int \<Rightarrow> (error + searchResult \<times> GentzenSystem) option" where
  "searchForProof sys targetFormula maxDepth =
     searchForProofWith expandOneLevel sys targetFormula maxDepth"

section \<open>Properties of the search\<close>

text \<open>
  The states reachable from a state by rule expansion: the state itself, and every
  successor that \<open>expandOneLevel\<close> gives for a reachable state.
\<close>

inductive reachable :: "GentzenSystem \<Rightarrow> GentzenSystem \<Rightarrow> bool" for sys where
  initial: "reachable sys sys"
| expanded: "reachable sys s \<Longrightarrow> child \<in> set (expandOneLevel s) \<Longrightarrow> reachable sys child"

lemma processChildren_found:
  "processChildren t d p children queue visited = Inr (Inl r) \<Longrightarrow>
   proven r \<and> missingFacts r = [] \<and> (\<exists>child \<in> set children. isProved child t = Inr True)"
  by (induction children arbitrary: queue visited)
     (auto simp: initialResult_def Let_def split: sum.splits bool.splits if_splits)

lemma processChildren_queue:
  "processChildren t d p children queue visited = Inr (Inr (queue', visited')) \<Longrightarrow>
   \<forall>x \<in> set queue. P (fst x) \<Longrightarrow> \<forall>c \<in> set children. P c \<Longrightarrow>
   \<forall>x \<in> set queue'. P (fst x)"
proof (induction children arbitrary: queue visited)
  case Nil
  then show ?case by simp
next
  case (Cons child children)
  show ?case
  proof (cases "isProved child t = Inr False \<and> getSystemSignature child \<notin> set visited")
    case True
    with Cons.prems(1)
    have rec: "processChildren t d p children (queue @ [(child, d + 1, p @ [StepLabel (d + 1)])])
            (setAdd visited (getSystemSignature child)) = Inr (Inr (queue', visited'))"
      by (simp add: Let_def)
    have q: "\<forall>x \<in> set (queue @ [(child, d + 1, p @ [StepLabel (d + 1)])]). P (fst x)"
      using Cons.prems(2,3) by simp
    have c: "\<forall>c \<in> set children. P c" using Cons.prems(3) by simp
    from Cons.IH[OF rec q c] show ?thesis .
  next
    case False
    with Cons.prems(1)
    have rec: "processChildren t d p children queue visited = Inr (Inr (queue', visited'))"
      by (auto simp: Let_def split: sum.splits bool.splits if_splits)
    have c: "\<forall>c \<in> set children. P c" using Cons.prems(3) by simp
    from Cons.IH[OF rec Cons.prems(2) c] show ?thesis .
  qed
qed

lemma processChildren_error:
  "processChildren t d p children queue visited = Inl e \<Longrightarrow>
   \<exists>child \<in> set children. isProved child t = Inl e"
  by (induction children arbitrary: queue visited)
     (auto simp: Let_def split: sum.splits bool.splits if_splits)

lemma searchLoop_Nil:
  "searchLoop expand t maxDepth iterations [] visited = Some (Inr initialResult)"
  by (subst searchLoop.simps) simp

lemma searchLoop_Cons:
  "searchLoop expand t maxDepth iterations ((system, d, p) # rest) visited =
     (if iterations + 1 > MAX_ITERATIONS \<or> length ((system, d, p) # rest) > MAX_QUEUE_SIZE
      then Some (Inr initialResult)
      else
        (case isProved system t of
           Inl e \<Rightarrow> Some (Inl e)
         | Inr isProven \<Rightarrow>
             if isProven
             then Some (Inr (initialResult\<lparr>proven := True, path := p, depth := d\<rparr>))
             else if int d \<ge> maxDepth
             then searchLoop expand t maxDepth (iterations + 1) rest visited
             else
               (case processChildren t d p (expand system) rest visited of
                  Inl e \<Rightarrow> Some (Inl e)
                | Inr (Inl found) \<Rightarrow> Some (Inr found)
                | Inr (Inr (queue', visited')) \<Rightarrow>
                    searchLoop expand t maxDepth (iterations + 1) queue' visited')))"
  by (subst searchLoop.simps) simp

text \<open>
  What every outcome of the loop satisfies, for a property \<open>P\<close> of states that
  holds of the queued states and is kept by expansion: an error is the error of
  \<open>isProved\<close> on a state with \<open>P\<close>; a result has no missing facts and, when
  it reports proven, the target is proved in a state with \<open>P\<close>.
\<close>

definition goodOutcome ::
  "(GentzenSystem \<Rightarrow> bool) \<Rightarrow> jstring \<Rightarrow> error + searchResult \<Rightarrow> bool" where
  "goodOutcome P t out =
     (case out of
        Inl e \<Rightarrow> \<exists>s. P s \<and> isProved s t = Inl e
      | Inr r \<Rightarrow> missingFacts r = [] \<and> (proven r \<longrightarrow> (\<exists>s. P s \<and> isProved s t = Inr True)))"

lemma goodOutcome_initial: "goodOutcome P t (Inr initialResult)"
  by (simp add: goodOutcome_def initialResult_def)

lemma searchLoop_outcome:
  assumes "\<forall>x \<in> set queue. P (fst x)"
      and closed: "\<And>s c. P s \<Longrightarrow> c \<in> set (expand s) \<Longrightarrow> P c"
    shows "\<exists>out. searchLoop expand t maxDepth iterations queue visited = Some out
                 \<and> goodOutcome P t out"
  using assms(1)
proof (induction "Suc MAX_ITERATIONS - iterations" arbitrary: iterations queue visited)
  case 0
  then have "iterations + 1 > MAX_ITERATIONS" by simp
  then show ?case
    by (cases queue; cases "hd queue")
       (auto simp: searchLoop_Nil searchLoop_Cons goodOutcome_initial)
next
  case (Suc n)
  show ?case
  proof (cases queue)
    case Nil
    then show ?thesis by (simp add: searchLoop_Nil goodOutcome_initial)
  next
    case (Cons item rest)
    obtain system d p where item: "item = (system, d, p)" by (cases item) auto
    with Cons have q: "queue = (system, d, p) # rest" by simp
    from Suc.prems q have rs: "P system"
      and rrest: "\<forall>x \<in> set rest. P (fst x)" by auto
    show ?thesis
    proof (cases "iterations + 1 > MAX_ITERATIONS \<or> length queue > MAX_QUEUE_SIZE")
      case True
      with q show ?thesis
        by (auto simp: searchLoop_Cons goodOutcome_initial)
    next
      case False
      from False Suc(2) have n: "n = Suc MAX_ITERATIONS - (iterations + 1)" by simp
      show ?thesis
      proof (cases "isProved system t")
        case (Inl e)
        with q False rs show ?thesis
          by (auto simp: searchLoop_Cons goodOutcome_def)
      next
        case (Inr b)
        show ?thesis
        proof (cases b)
          case True
          with Inr q False rs show ?thesis
            by (auto simp: searchLoop_Cons goodOutcome_def initialResult_def)
        next
          case nb: False
          show ?thesis
          proof (cases "int d \<ge> maxDepth")
            case True
            with q False Inr nb
            have "searchLoop expand t maxDepth iterations queue visited =
                  searchLoop expand t maxDepth (iterations + 1) rest visited"
              by (simp add: searchLoop_Cons)
            with Suc(1)[OF n rrest] show ?thesis by simp
          next
            case nd: False
            show ?thesis
            proof (cases "processChildren t d p (expand system) rest visited")
              case (Inl e)
              with processChildren_error obtain child
                where "child \<in> set (expand system)" "isProved child t = Inl e" by blast
              with closed[OF rs] have "goodOutcome P t (Inl e)"
                by (auto simp: goodOutcome_def)
              with Inl q False Inr nb nd show ?thesis
                by (simp add: searchLoop_Cons)
            next
              case pc: (Inr out)
              show ?thesis
              proof (cases out)
                case (Inl found)
                with processChildren_found pc obtain child
                  where "child \<in> set (expand system)" "isProved child t = Inr True"
                    and "missingFacts found = []"
                  by blast
                with closed[OF rs] have "goodOutcome P t (Inr found)"
                  by (auto simp: goodOutcome_def)
                with Inl pc q False Inr nb nd show ?thesis
                  by (simp add: searchLoop_Cons)
              next
                case qv: (Inr qv)
                obtain queue' visited' where qv': "qv = (queue', visited')" by (cases qv) auto
                with q False Inr nb nd pc qv
                have rec: "searchLoop expand t maxDepth iterations queue visited =
                           searchLoop expand t maxDepth (iterations + 1) queue' visited'"
                  by (simp add: searchLoop_Cons)
                have "\<forall>c \<in> set (expand system). P c"
                  using closed[OF rs] by blast
                with processChildren_queue[of t d p "expand system" rest visited queue'
                    visited' P] pc qv qv' rrest
                have "\<forall>x \<in> set queue'. P (fst x)"
                  by blast
                from Suc(1)[OF n this] rec show ?thesis by simp
              qed
            qed
          qed
        qed
      qed
    qed
  qed
qed



lemma isProved_parses: "isProved s t = Inr b \<Longrightarrow> \<exists>p. parseFormula t = Inr p"
  unfolding isProved_def
  by (auto simp: normalizeFormula_def split: sum.splits)

lemma searchForProofWith_outcome:
  assumes closed: "\<And>s c. P s \<Longrightarrow> c \<in> set (expand s) \<Longrightarrow> P c" and "P sys"
  shows "\<exists>out. searchForProofWith expand sys t maxDepth = Some out
           \<and> (case out of
                 Inl e \<Rightarrow> \<exists>s. P s \<and> isProved s t = Inl e
               | Inr (r, sys') \<Rightarrow> proven r \<longrightarrow> (\<exists>s. P s \<and> isProved s t = Inr True))"
proof (cases "isProved sys t")
  case (Inl e)
  with assms(2) show ?thesis by (auto simp: searchForProofWith_def)
next
  case (Inr b)
  then obtain pf where pf: "parseFormula t = Inr pf" by (blast dest: isProved_parses)
  show ?thesis
  proof (cases b)
    case True
    with Inr assms(2) show ?thesis by (auto simp: searchForProofWith_def)
  next
    case False
    obtain canResolve missing where cr: "canResolveFormula sys t = Inr (canResolve, missing)"
      using pf by (simp add: canResolveFormula_def extractMissingFactsFromFormula_def Let_def)
    show ?thesis
    proof (cases canResolve)
      case nr: False
      with Inr False cr show ?thesis
        by (simp add: searchForProofWith_def initialResult_def)
    next
      case True
      have "\<forall>x \<in> set [(sys, 0::nat, []::pathLabel list)]. P (fst x)" using assms(2) by simp
      then have "\<exists>out. searchLoop expand t maxDepth 0 [(sys, 0, [])]
            (newSet [getSystemSignature sys]) = Some out \<and> goodOutcome P t out"
        by (rule searchLoop_outcome) (rule closed)
      then obtain out where "searchLoop expand t maxDepth 0 [(sys, 0, [])]
            (newSet [getSystemSignature sys]) = Some out" and "goodOutcome P t out"
        by blast
      with Inr False cr True show ?thesis
        by (cases out) (auto simp: searchForProofWith_def goodOutcome_def)
    qed
  qed
qed






lemma expandOneLevel_ceiling: "length (steps sys) \<ge> MAX_STEPS \<Longrightarrow> expandOneLevel sys = []"
  by (simp add: expandOneLevel_def)

lemma reachable_closed: "reachable sys s \<Longrightarrow> c \<in> set (expandOneLevel s) \<Longrightarrow> reachable sys c"
  by (rule reachable.expanded)

lemma reachable_no_successors: "reachable sys s \<Longrightarrow> expandOneLevel sys = [] \<Longrightarrow> s = sys"
  by (induction rule: reachable.induct) auto

lemmas search_eval = searchForProof_def searchForProofWith_def isProved_def canResolveFormula_def
  extractMissingFactsFromFormula_def getAtoms_def isAtomResolvable_def isFactAvailable_def
  searchLoop_Nil searchLoop_Cons initialResult_def getSystemSignature_def MAX_ITERATIONS_def
  MAX_QUEUE_SIZE_def MAX_STEPS_def expandOneLevel_def tryBinary_def tryUnary_def keepIfNew_def
  binaryCombos_def unaryCombos_def cloneSystem_def didWeDeriveNewFormula_def
  newGentzenSystem_def addFact_def addProposition_def alphaRule_def betaRule_def
  equivalenceRule_def contrapositionRule_def doubleNegationRule_def Let_def

subsection \<open>No false positive\<close>

text \<open>
  Claim C1. Whenever \<open>searchForProof\<close> returns a result that reports proven, the
  target is proved (\<open>isProved\<close>) in the initial state or in a state reachable from
  it by rule expansion. Exceeding a bound never reports proven: when the iteration
  counter passes \<open>MAX_ITERATIONS\<close> or the queue is longer than
  \<open>MAX_QUEUE_SIZE\<close>, the loop returns the initial result, whose \<open>proven\<close> is
  false; a state with \<open>MAX_STEPS\<close> steps or more has no successors, and the search
  from such a state that does not prove the target itself does not report proven.
\<close>

theorem searchForProof_sound:
  "(searchForProof sys t maxDepth = Some (Inr (r, sys')) \<and> proven r \<longrightarrow>
      (\<exists>s. reachable sys s \<and> isProved s t = Inr True))
   \<and> (queue \<noteq> [] \<and> (iterations + 1 > MAX_ITERATIONS \<or> length queue > MAX_QUEUE_SIZE) \<longrightarrow>
        searchLoop expand t maxDepth iterations queue visited = Some (Inr initialResult))
   \<and> \<not> proven initialResult
   \<and> (length (steps sys) \<ge> MAX_STEPS \<longrightarrow> expandOneLevel sys = [])
   \<and> (length (steps sys) \<ge> MAX_STEPS \<and> isProved sys t = Inr False
        \<and> searchForProof sys t maxDepth = Some (Inr (r, sys')) \<longrightarrow> \<not> proven r)"
proof -
  have sound: "\<exists>s. reachable sys s \<and> isProved s t = Inr True"
    if a: "searchForProof sys t maxDepth = Some (Inr (r, sys')) \<and> proven r"
  proof -
    have "\<exists>out. searchForProofWith expandOneLevel sys t maxDepth = Some out
           \<and> (case out of
                 Inl e \<Rightarrow> \<exists>s. reachable sys s \<and> isProved s t = Inl e
               | Inr (r, sys') \<Rightarrow> proven r \<longrightarrow> (\<exists>s. reachable sys s \<and> isProved s t = Inr True))"
      by (rule searchForProofWith_outcome) (auto intro: reachable.intros)
    with a show ?thesis by (auto simp: searchForProof_def)
  qed
  have bound: "searchLoop expand t maxDepth iterations queue visited = Some (Inr initialResult)"
    if "queue \<noteq> [] \<and> (iterations + 1 > MAX_ITERATIONS \<or> length queue > MAX_QUEUE_SIZE)"
    using that by (cases queue; cases "hd queue") (auto simp: searchLoop_Cons)
  have init: "\<not> proven initialResult" by (simp add: initialResult_def)
  have ceiling: "expandOneLevel sys = []" if "length (steps sys) \<ge> MAX_STEPS"
    using that by (rule expandOneLevel_ceiling)
  have full: "\<not> proven r"
    if a: "length (steps sys) \<ge> MAX_STEPS \<and> isProved sys t = Inr False
        \<and> searchForProof sys t maxDepth = Some (Inr (r, sys'))"
  proof
    assume "proven r"
    with a sound obtain s where s: "reachable sys s" "isProved s t = Inr True" by blast
    from a have "expandOneLevel sys = []" by (simp add: expandOneLevel_ceiling)
    with s(1) have "s = sys" by (rule reachable_no_successors)
    with s(2) a show False by simp
  qed
  from sound bound init ceiling full show ?thesis by blast
qed

text \<open>
  The examples: \<open>sysA\<close> holds the proposition \<open>A\<close> as its only step, \<open>sysFull\<close>
  holds the fact \<open>~B\<close> and \<open>MAX_STEPS\<close> steps without a formula, and
  \<open>sysDash\<close> holds the facts \<open>is-admin\<close> and
  \<open>X\<close>, as a resolver map keyed with these names gives them.
\<close>

definition sysA :: GentzenSystem where
  "sysA = snd (addProposition newGentzenSystem (js ''A''))"

definition sysFull :: GentzenSystem where
  "sysFull = newGentzenSystem
     \<lparr>steps := replicate 100 (Step ''Proposition'' ''fact'' [] []), facts := [js ''~B'']\<rparr>"


lemma sysA_search:
  "searchForProof sysA (js ''(A '' @ [8743] @ js '' A)'') 5 =
     Some (Inr (\<lparr>proven = True, path = [FinalStep], missingFacts = [], skippedSteps = [],
                 depth = 1\<rparr>, sysA))"
  by (simp add: sysA_def search_eval rule_eval lexer_eval parser_eval)

lemma sysA_missing:
  "isProved sysA (js ''B'') = Inr False"
  "parseFormula (js ''B'') = Inr \<lparr>raw = js ''B'', ast = AtomNode (js ''B'')\<rparr>"
  "getAtoms (AtomNode (js ''B'')) = [js ''B'']"
  "\<not> isAtomResolvable sysA (js ''B'')"
  by (simp_all add: sysA_def search_eval rule_eval lexer_eval parser_eval)



lemma sysFull_search:
  "isProved sysFull (js ''B'') = Inr False"
  "searchForProof sysFull (js ''B'') 5 = Some (Inr (initialResult, sysFull))"
  by (simp_all add: sysFull_def search_eval rule_eval lexer_eval parser_eval)

theorem searchForProof_sound_witness:
  "searchForProof sysA (js ''(A '' @ [8743] @ js '' A)'') 5 =
     Some (Inr (\<lparr>proven = True, path = [FinalStep], missingFacts = [], skippedSteps = [],
                 depth = 1\<rparr>, sysA))
   \<and> (\<exists>s. reachable sysA s \<and> isProved s (js ''(A '' @ [8743] @ js '' A)'') = Inr True)
   \<and> searchLoop expandOneLevel (js ''A'') 5 1000 [(sysA, 0, [])] [] = Some (Inr initialResult)
   \<and> length (steps sysFull) \<ge> MAX_STEPS \<and> expandOneLevel sysFull = []
   \<and> isProved sysFull (js ''B'') = Inr False
   \<and> searchForProof sysFull (js ''B'') 5 = Some (Inr (initialResult, sysFull))
   \<and> \<not> proven initialResult"
proof -
  let ?r = "\<lparr>proven = True, path = [FinalStep], missingFacts = [], skippedSteps = [],
             depth = 1\<rparr>"
  have p: "proven ?r" by simp
  have b: "[(sysA, 0::nat, []::pathLabel list)] \<noteq> [] \<and> (1000 + 1 > MAX_ITERATIONS
            \<or> length [(sysA, 0::nat, []::pathLabel list)] > MAX_QUEUE_SIZE)"
    by (simp add: MAX_ITERATIONS_def)
  have f: "length (steps sysFull) \<ge> MAX_STEPS"
    by (simp add: sysFull_def MAX_STEPS_def)
  from sysA_search p b f sysFull_search
    searchForProof_sound [of sysA "js ''(A '' @ [8743] @ js '' A)''" 5 ?r sysA
      "[(sysA, 0, [])]" 1000 expandOneLevel "[]"]
    searchForProof_sound [of sysFull "js ''B''" 5 initialResult sysFull "[(sysA, 0, [])]" 1000
      expandOneLevel "[]"]
    searchForProof_sound [of sysA "js ''A''" 5 ?r sysA "[(sysA, 0, [])]" 1000
      expandOneLevel "[]"]
  show ?thesis by blast
qed

subsection \<open>Termination\<close>

text \<open>Parsing a string raises nothing but the lexer's and the parser's errors.\<close>

definition parseErr :: "error + ASTNode \<times> parser \<Rightarrow> bool" where
  "parseErr r \<longleftrightarrow> (\<forall>e. r = Inl e \<longrightarrow> (\<exists>m p tok. e = ParseError m p tok))"


lemma parseErr_Inl: "parseErr (Inl (ParseError m p tok))"
  by (simp add: parseErr_def)








subsection \<open>Missing facts\<close>

text \<open>
  Claim C6. When the target is not already proved and one of its atoms is not
  resolvable, \<open>searchForProof\<close> returns at once, whatever the expansion method is:
  the result is not proven, at depth 0 with an empty path, and its \<open>missingFacts\<close>
  is the non-empty list of the unresolvable atoms of the target, each without its
  leading tildes. The \<open>missingFacts\<close> of a result is non-empty in this case only:
  then the target is not proved in the initial state and has an unresolvable atom, and
  every result of the loop, so also one that comes from an exceeded bound, has empty
  \<open>missingFacts\<close>.
\<close>

theorem searchForProof_missing_facts:
  "(isProved sys t = Inr False \<and> parseFormula t = Inr p
      \<and> (\<exists>a \<in> set (getAtoms (ast p)). \<not> isAtomResolvable sys a) \<longrightarrow>
      (let missing = map (dropWhile (\<lambda>c. c = 126))
                       (filter (\<lambda>a. \<not> isAtomResolvable sys a) (getAtoms (ast p)))
       in missing \<noteq> []
          \<and> (\<forall>expand. searchForProofWith expand sys t maxDepth =
                Some (Inr (\<lparr>proven = False, path = [], missingFacts = missing,
                            skippedSteps = [], depth = 0\<rparr>,
                           foldl trackMissingFact sys missing)))))
   \<and> (searchForProof sys t maxDepth = Some (Inr (r, sys')) \<and> missingFacts r \<noteq> [] \<longrightarrow>
        \<not> proven r \<and> isProved sys t = Inr False
        \<and> (\<exists>p. parseFormula t = Inr p
              \<and> (\<exists>a \<in> set (getAtoms (ast p)). \<not> isAtomResolvable sys a)))
   \<and> (searchLoop expand t maxDepth iterations queue visited = Some (Inr r) \<longrightarrow>
        missingFacts r = [])"
proof -
  have part1: "let missing = map (dropWhile (\<lambda>c. c = 126))
                       (filter (\<lambda>a. \<not> isAtomResolvable sys a) (getAtoms (ast p)))
       in missing \<noteq> []
          \<and> (\<forall>expand. searchForProofWith expand sys t maxDepth =
                Some (Inr (\<lparr>proven = False, path = [], missingFacts = missing,
                            skippedSteps = [], depth = 0\<rparr>,
                           foldl trackMissingFact sys missing)))"
    if a: "isProved sys t = Inr False \<and> parseFormula t = Inr p
      \<and> (\<exists>a \<in> set (getAtoms (ast p)). \<not> isAtomResolvable sys a)"
  proof -
  let ?missing = "map (dropWhile (\<lambda>c. c = 126))
                       (filter (\<lambda>a. \<not> isAtomResolvable sys a) (getAtoms (ast p)))"
  from a have ne: "?missing \<noteq> []" by (auto simp: filter_empty_conv)
  from a have cr: "canResolveFormula sys t = Inr (False, ?missing)"
    using ne by (simp add: canResolveFormula_def extractMissingFactsFromFormula_def Let_def)
  have "searchForProofWith expand sys t maxDepth =
                Some (Inr (\<lparr>proven = False, path = [], missingFacts = ?missing,
                            skippedSteps = [], depth = 0\<rparr>,
                           foldl trackMissingFact sys ?missing))" for expand
    using a cr by (simp add: searchForProofWith_def initialResult_def)
  with ne show ?thesis
    by (simp add: Let_def)
  qed
  have part2: "\<not> proven r \<and> isProved sys t = Inr False
        \<and> (\<exists>p. parseFormula t = Inr p
              \<and> (\<exists>a \<in> set (getAtoms (ast p)). \<not> isAtomResolvable sys a))"
    if a: "searchForProof sys t maxDepth = Some (Inr (r, sys')) \<and> missingFacts r \<noteq> []"
  proof (cases "isProved sys t")
    case (Inl e)
    with a show ?thesis by (simp add: searchForProof_def searchForProofWith_def)
  next
    case (Inr b)
    then obtain p where p: "parseFormula t = Inr p" by (blast dest: isProved_parses)
    let ?missing = "map (dropWhile (\<lambda>c. c = 126))
                       (filter (\<lambda>a. \<not> isAtomResolvable sys a) (getAtoms (ast p)))"
    have cr: "canResolveFormula sys t = Inr (?missing = [], ?missing)"
      using p by (simp add: canResolveFormula_def extractMissingFactsFromFormula_def Let_def)
    show ?thesis
    proof (cases b)
      case True
      with Inr a show ?thesis
        by (auto simp: searchForProof_def searchForProofWith_def initialResult_def)
    next
      case nb: False
      show ?thesis
      proof (cases "?missing = []")
        case True
        have "\<forall>x \<in> set [(sys, 0::nat, []::pathLabel list)]. (\<lambda>s. True) (fst x)" by simp
        then have "\<exists>out. searchLoop expandOneLevel t maxDepth 0 [(sys, 0, [])]
              (newSet [getSystemSignature sys]) = Some out \<and> goodOutcome (\<lambda>s. True) t out"
          by (rule searchLoop_outcome) simp
        then obtain out where "searchLoop expandOneLevel t maxDepth 0 [(sys, 0, [])]
              (newSet [getSystemSignature sys]) = Some out" "goodOutcome (\<lambda>s. True) t out"
          by blast
        with a Inr nb cr True show ?thesis
          by (cases out) (auto simp: searchForProof_def searchForProofWith_def goodOutcome_def)
      next
        case False
        then have "\<exists>a \<in> set (getAtoms (ast p)). \<not> isAtomResolvable sys a"
          by (auto simp: filter_empty_conv)
        moreover from a Inr nb cr False have "\<not> proven r"
          by (auto simp: searchForProof_def searchForProofWith_def initialResult_def)
        ultimately show ?thesis using Inr nb p by auto
      qed
    qed
  qed
  have part3: "missingFacts r = []"
    if a: "searchLoop expand t maxDepth iterations queue visited = Some (Inr r)"
  proof -
    have "\<forall>x \<in> set queue. (\<lambda>s. True) (fst x)" by simp
    then have "\<exists>out. searchLoop expand t maxDepth iterations queue visited = Some out
                   \<and> goodOutcome (\<lambda>s. True) t out"
      by (rule searchLoop_outcome) simp
    with a show ?thesis by (auto simp: goodOutcome_def)
  qed
  from part1 part2 part3 show ?thesis by blast
qed

theorem searchForProof_missing_facts_witness:
  "isProved sysA (js ''B'') = Inr False
   \<and> parseFormula (js ''B'') = Inr \<lparr>raw = js ''B'', ast = AtomNode (js ''B'')\<rparr>
   \<and> \<not> isAtomResolvable sysA (js ''B'')
   \<and> searchForProof sysA (js ''B'') 5 =
       Some (Inr (\<lparr>proven = False, path = [], missingFacts = [js ''B''], skippedSteps = [],
                   depth = 0\<rparr>, trackMissingFact sysA (js ''B'')))
   \<and> searchLoop expandOneLevel (js ''B'') 5 1000 [(sysA, 0, [])] [] = Some (Inr initialResult)
   \<and> missingFacts initialResult = []"
proof -
  let ?p = "\<lparr>raw = js ''B'', ast = AtomNode (js ''B'')\<rparr>"
  let ?r = "\<lparr>proven = False, path = [], missingFacts = [js ''B''], skippedSteps = [],
             depth = 0\<rparr>"
  have atoms: "\<exists>a \<in> set (getAtoms (ast ?p)). \<not> isAtomResolvable sysA a"
    using sysA_missing(3,4) by simp
  have missing: "map (dropWhile (\<lambda>c. c = 126))
           (filter (\<lambda>a. \<not> isAtomResolvable sysA a) (getAtoms (ast ?p))) = [js ''B'']"
    using sysA_missing(3,4) by (simp add: js_def)
  have loop: "searchLoop expandOneLevel (js ''B'') 5 1000 [(sysA, 0, [])] []
                = Some (Inr initialResult)"
    by (simp add: searchLoop_Cons MAX_ITERATIONS_def)
  from searchForProof_missing_facts
      [of sysA "js ''B''" ?p 5 initialResult sysA expandOneLevel 1000 "[(sysA, 0, [])]" "[]"]
    sysA_missing(1,2) atoms missing loop
  have "searchForProofWith expandOneLevel sysA (js ''B'') 5 =
          Some (Inr (?r, foldl trackMissingFact sysA [js ''B'']))"
    and "missingFacts initialResult = []"
    by (simp_all add: Let_def)
  with sysA_missing(1,2,4) loop show ?thesis
    by (simp add: searchForProof_def)
qed

section \<open>Round trip through the canonical rendering\<close>

text \<open>
  An identifier that the tokenizer can produce: it matches the atom-name pattern and
  no operator alias is a prefix of it. A tree is well formed when its atoms are such
  identifiers, its unary nodes are negations and its binary nodes carry a binary
  operator; these are the trees that the parser builds.
\<close>

definition identOk :: "jstring \<Rightarrow> bool" where
  "identOk v \<longleftrightarrow> matchesAtomPattern v \<and> \<not> startsOperator v"

fun wfAST :: "ASTNode \<Rightarrow> bool" where
  "wfAST (AtomNode v) = identOk v"
| "wfAST (UnaryNode op a) = (op = NOT \<and> wfAST a)"
| "wfAST (BinaryNode op l r) = (op \<noteq> NOT \<and> wfAST l \<and> wfAST r)"

definition okTokens :: "token list \<Rightarrow> bool" where
  "okTokens ts \<longleftrightarrow> (\<forall>v p. IDENTIFIER v p \<in> set ts \<longrightarrow> identOk v)"

lemma startsWith_append: "startsWith v op \<Longrightarrow> startsWith (v @ x) op"
  by (induction v op rule: startsWith.induct) auto

lemma startsOperator_prefix:
  "startsOperator v \<Longrightarrow> startsOperator (v @ x)"
  by (auto simp: startsOperator_def list_ex_iff intro: startsWith_append)

lemma readIdentifier_identOk:
  assumes "isLetter c" and "\<not> startsOperator (c # cs)"
      and "readIdentifier pos (c # cs) = Inr (IDENTIFIER v p, pos', rest')"
    shows "identOk v"
proof -
  from assms(1,3) have v: "v = takeWhile isIdentChar (c # cs)"
    by (simp add: readIdentifier_def Let_def)
  with assms(1) have v': "v = c # takeWhile isIdentChar cs"
    by (simp add: isLetter_isIdentChar)
  have "matchesAtomPattern v"
    using assms(1) v' by (auto simp: matchesAtomPattern_def list_all_iff dest: set_takeWhileD)
  moreover have "\<not> startsOperator v"
  proof
    assume "startsOperator v"
    then have "startsOperator (v @ dropWhile isIdentChar (c # cs))" by (rule startsOperator_prefix)
    moreover have "v @ dropWhile isIdentChar (c # cs) = c # cs"
      unfolding v by (rule takeWhile_dropWhile_id)
    ultimately show False using assms(2) by simp
  qed
  ultimately show ?thesis by (simp add: identOk_def)
qed

lemma readOperator_token:
  "readOperator pos rest = Inr (tok, pos', rest') \<Longrightarrow> \<exists>op. tok = OPERATOR op pos"
  by (auto simp: readOperator_def split: option.splits)

lemma getNextToken_identOk:
  "getNextToken pos rest = Inr (IDENTIFIER v p, pos', rest') \<Longrightarrow> identOk v"
proof (induction pos rest rule: getNextToken.induct)
  case (1 pos)
  then show ?case by simp
next
  case (2 pos c cs)
  show ?case
  proof (cases "isWhitespace c")
    case True
    with 2 show ?thesis by simp
  next
    case False
    with 2(2) show ?thesis
      by (auto split: if_splits dest: readOperator_token readIdentifier_identOk)
  qed
qed

lemma tokenizeLoop_okTokens:
  "tokenizeLoop pos rest = Inr ts \<Longrightarrow> okTokens ts"
proof (induction pos rest arbitrary: ts rule: tokenizeLoop.induct)
  case (1 pos rest)
  from 1(2) obtain tok pos' rest' where g: "getNextToken pos rest = Inr (tok, pos', rest')"
    by (auto simp: tokenizeLoop.simps[of pos rest] split: sum.splits)
  have tokOk: "okTokens [tok]"
    using g by (cases tok) (auto simp: okTokens_def dest: getNextToken_identOk)
  show ?case
  proof (cases "isEOF tok")
    case True
    with 1(2) g tokOk show ?thesis by (simp add: tokenizeLoop.simps[of pos rest])
  next
    case False
    with 1(2) g obtain ts' where r: "tokenizeLoop pos' rest' = Inr ts'" and ts: "ts = tok # ts'"
      by (auto simp: tokenizeLoop.simps[of pos rest] split: sum.splits)
    from 1(1)[OF g refl refl False r] tokOk ts show ?thesis
      by (auto simp: okTokens_def)
  qed
qed

text \<open>The parser builds well-formed trees from tokens with such identifiers.\<close>

definition wfResult :: "error + (ASTNode \<times> parser) \<Rightarrow> bool" where
  "wfResult r \<longleftrightarrow> (\<forall>a st'. r = Inr (a, st') \<longrightarrow> wfAST a \<and> okTokens (snd st'))"

lemma wfResultI:
  "(\<And>a st'. r = Inr (a, st') \<Longrightarrow> wfAST a \<and> okTokens (snd st')) \<Longrightarrow> wfResult r"
  unfolding wfResult_def by blast

lemma wfResultD: "wfResult r \<Longrightarrow> r = Inr (a, st') \<Longrightarrow> wfAST a \<and> okTokens (snd st')"
  unfolding wfResult_def by blast

lemma okTokens_advance: "okTokens (snd st) \<Longrightarrow> okTokens (snd (advance st))"
  by (cases st; cases "snd st") (auto simp: okTokens_def)

lemma okTokens_consumeRParen:
  "consumeRParen st = Inr st' \<Longrightarrow> okTokens (snd st) \<Longrightarrow> okTokens (snd st')"
  by (induction st rule: consumeRParen.induct) (fastforce simp: okTokens_def)+

lemma okTokens_currentToken:
  "currentToken st = Some (IDENTIFIER v p) \<Longrightarrow> okTokens (snd st) \<Longrightarrow> identOk v"
  by (induction st rule: currentToken.induct) (auto simp: okTokens_def)

lemma parser_wf:
  shows "okTokens (snd st1) \<Longrightarrow> wfResult (parseEquivalence st1)"
    and "okTokens (snd st2) \<Longrightarrow> wfAST l2 \<Longrightarrow> wfResult (equivalenceLoop l2 st2)"
    and "okTokens (snd st3) \<Longrightarrow> wfResult (parseImplication st3)"
    and "okTokens (snd st4) \<Longrightarrow> wfResult (parseDisjunction st4)"
    and "okTokens (snd st5) \<Longrightarrow> wfAST l5 \<Longrightarrow> wfResult (disjunctionLoop l5 st5)"
    and "okTokens (snd st6) \<Longrightarrow> wfResult (parseConjunction st6)"
    and "okTokens (snd st7) \<Longrightarrow> wfAST l7 \<Longrightarrow> wfResult (conjunctionLoop l7 st7)"
    and "okTokens (snd st8) \<Longrightarrow> wfResult (parseNegation st8)"
    and "okTokens (snd st9) \<Longrightarrow> wfResult (parsePrimary st9)"
proof (induct rule: parseEquivalence_equivalenceLoop_parseImplication_parseDisjunction_disjunctionLoop_parseConjunction_conjunctionLoop_parseNegation_parsePrimary.induct)
  case (1 st)
  show ?case
  proof (rule wfResultI)
    fix a st' assume r: "parseEquivalence st = Inr (a, st')"
    then obtain l s where pi: "parseImplication st = Inr (l, s)"
      and el: "equivalenceLoop l s = Inr (a, st')"
      by (auto simp: parseEquivalence.simps[of st] split: sum.splits)
    from wfResultD[OF 1(1)[OF 1(3)] pi] have "wfAST l" "okTokens (snd s)" by simp_all
    from wfResultD[OF 1(2)[OF pi refl this(2,1)] el] show "wfAST a \<and> okTokens (snd st')" .
  qed
next
  case (2 left st)
  show ?case
  proof (rule wfResultI)
    fix a st' assume r: "equivalenceLoop left st = Inr (a, st')"
    show "wfAST a \<and> okTokens (snd st')"
    proof (cases "matchOperator st IFF")
      case True
      with r obtain x s where pi: "parseImplication (advance st) = Inr (x, s)"
        and el: "equivalenceLoop (createEquivalence left x) s = Inr (a, st')"
        by (auto simp: equivalenceLoop.simps[of left st] split: sum.splits)
      from wfResultD[OF 2(1)[OF True okTokens_advance[OF 2(3)]] pi]
      have "wfAST x" "okTokens (snd s)" by simp_all
      moreover from this 2(4) have "wfAST (createEquivalence left x)"
        by (simp add: createEquivalence_def)
      ultimately show ?thesis using wfResultD[OF 2(2)[OF True pi refl] el] by simp
    next
      case False
      with r 2(3,4) show ?thesis by (simp add: equivalenceLoop.simps[of left st])
    qed
  qed
next
  case (3 st)
  show ?case
  proof (rule wfResultI)
    fix a st' assume r: "parseImplication st = Inr (a, st')"
    then obtain l s where pd: "parseDisjunction st = Inr (l, s)"
      by (auto simp: parseImplication.simps[of st] split: sum.splits)
    from wfResultD[OF 3(1)[OF 3(3)] pd] have l: "wfAST l" "okTokens (snd s)" by simp_all
    show "wfAST a \<and> okTokens (snd st')"
    proof (cases "matchOperator s IMPLIES")
      case True
      with r pd obtain x where pi: "parseImplication (advance s) = Inr (x, st')"
        and a: "a = createImplication l x"
        by (auto simp: parseImplication.simps[of st] split: sum.splits)
      from wfResultD[OF 3(2)[OF pd refl True okTokens_advance[OF l(2)]] pi] l a
      show ?thesis by (simp add: createImplication_def)
    next
      case False
      with r pd l show ?thesis by (simp add: parseImplication.simps[of st])
    qed
  qed
next
  case (4 st)
  show ?case
  proof (rule wfResultI)
    fix a st' assume r: "parseDisjunction st = Inr (a, st')"
    then obtain l s where pi: "parseConjunction st = Inr (l, s)"
      and el: "disjunctionLoop l s = Inr (a, st')"
      by (auto simp: parseDisjunction.simps[of st] split: sum.splits)
    from wfResultD[OF 4(1)[OF 4(3)] pi] have "wfAST l" "okTokens (snd s)" by simp_all
    from wfResultD[OF 4(2)[OF pi refl this(2,1)] el] show "wfAST a \<and> okTokens (snd st')" .
  qed
next
  case (5 left st)
  show ?case
  proof (rule wfResultI)
    fix a st' assume r: "disjunctionLoop left st = Inr (a, st')"
    show "wfAST a \<and> okTokens (snd st')"
    proof (cases "matchOperator st OR")
      case True
      with r obtain x s where pi: "parseConjunction (advance st) = Inr (x, s)"
        and el: "disjunctionLoop (createDisjunction left x) s = Inr (a, st')"
        by (auto simp: disjunctionLoop.simps[of left st] split: sum.splits)
      from wfResultD[OF 5(1)[OF True okTokens_advance[OF 5(3)]] pi]
      have "wfAST x" "okTokens (snd s)" by simp_all
      moreover from this 5(4) have "wfAST (createDisjunction left x)"
        by (simp add: createDisjunction_def)
      ultimately show ?thesis using wfResultD[OF 5(2)[OF True pi refl] el] by simp
    next
      case False
      with r 5(3,4) show ?thesis by (simp add: disjunctionLoop.simps[of left st])
    qed
  qed
next
  case (6 st)
  show ?case
  proof (rule wfResultI)
    fix a st' assume r: "parseConjunction st = Inr (a, st')"
    then obtain l s where pi: "parseNegation st = Inr (l, s)"
      and el: "conjunctionLoop l s = Inr (a, st')"
      by (auto simp: parseConjunction.simps[of st] split: sum.splits)
    from wfResultD[OF 6(1)[OF 6(3)] pi] have "wfAST l" "okTokens (snd s)" by simp_all
    from wfResultD[OF 6(2)[OF pi refl this(2,1)] el] show "wfAST a \<and> okTokens (snd st')" .
  qed
next
  case (7 left st)
  show ?case
  proof (rule wfResultI)
    fix a st' assume r: "conjunctionLoop left st = Inr (a, st')"
    show "wfAST a \<and> okTokens (snd st')"
    proof (cases "matchOperator st AND")
      case True
      with r obtain x s where pi: "parseNegation (advance st) = Inr (x, s)"
        and el: "conjunctionLoop (createConjunction left x) s = Inr (a, st')"
        by (auto simp: conjunctionLoop.simps[of left st] split: sum.splits)
      from wfResultD[OF 7(1)[OF True okTokens_advance[OF 7(3)]] pi]
      have "wfAST x" "okTokens (snd s)" by simp_all
      moreover from this 7(4) have "wfAST (createConjunction left x)"
        by (simp add: createConjunction_def)
      ultimately show ?thesis using wfResultD[OF 7(2)[OF True pi refl] el] by simp
    next
      case False
      with r 7(3,4) show ?thesis by (simp add: conjunctionLoop.simps[of left st])
    qed
  qed
next
  case (8 st)
  show ?case
  proof (rule wfResultI)
    fix a st' assume r: "parseNegation st = Inr (a, st')"
    show "wfAST a \<and> okTokens (snd st')"
    proof (cases "matchOperator st NOT")
      case True
      with r obtain x where pi: "parseNegation (advance st) = Inr (x, st')"
        and a: "a = negate x"
        by (auto simp: parseNegation.simps[of st] split: sum.splits)
      from wfResultD[OF 8(1)[OF True okTokens_advance[OF 8(3)]] pi] a
      show ?thesis by (simp add: negate_def)
    next
      case False
      with r have "parsePrimary st = Inr (a, st')" by (simp add: parseNegation.simps[of st])
      with wfResultD[OF 8(2)[OF False 8(3)]] show ?thesis by simp
    qed
  qed
next
  case (9 st)
  show ?case
  proof (rule wfResultI)
    fix a st' assume r: "parsePrimary st = Inr (a, st')"
    show "wfAST a \<and> okTokens (snd st')"
    proof (cases "currentToken st")
      case None
      with r show ?thesis by (simp add: parsePrimary.simps[of st])
    next
      case (Some t)
      show ?thesis
      proof (cases t)
        case (LPAREN p)
        with Some r obtain s where pe: "parseEquivalence (advance st) = Inr (a, s)"
          and c: "consumeRParen s = Inr st'"
          by (auto simp: parsePrimary.simps[of st] split: sum.splits)
        from wfResultD[OF 9(1)[OF Some LPAREN okTokens_advance[OF 9(2)]] pe]
          okTokens_consumeRParen[OF c]
        show ?thesis by simp
      next
        case (IDENTIFIER v p)
        with Some r have "a = AtomNode v" "st' = advance st"
          by (simp_all add: parsePrimary.simps[of st] createAtom_def)
        with okTokens_currentToken[OF Some[unfolded IDENTIFIER] 9(2)] okTokens_advance[OF 9(2)]
        show ?thesis by simp
      qed (use Some r in \<open>simp_all add: parsePrimary.simps[of st]\<close>)
    qed
  qed
qed

lemma parse_wf: "okTokens ts \<Longrightarrow> parse ts = Inr a \<Longrightarrow> wfAST a"
  using wfResultD[OF parser_wf(1)[of "(0, ts)"]]
  by (auto simp: parse_def split: sum.splits option.splits if_splits)

lemma normalizeAST_not_double:
  "normalizeAST a \<noteq> UnaryNode NOT (UnaryNode NOT b)"
  by (induction a rule: normalizeAST.induct) auto

lemma normalizeAST_idem: "normalizeAST (normalizeAST a) = normalizeAST a"
  by (induction a rule: normalizeAST.induct) auto

lemma normalizeAST_wf: "wfAST a \<Longrightarrow> wfAST (normalizeAST a)"
  by (induction a rule: normalizeAST.induct) auto

text \<open>
  The tokens of the canonical rendering of a tree that starts at position \<open>pos\<close>.
\<close>

fun toks :: "ASTNode \<Rightarrow> nat \<Rightarrow> token list" where
  "toks (AtomNode v) pos = [IDENTIFIER v pos]"
| "toks (UnaryNode op a) pos = OPERATOR NOT pos # toks a (Suc pos)"
| "toks (BinaryNode op l r) pos =
     LPAREN pos # toks l (Suc pos)
     @ [OPERATOR op (pos + length (astToString l) + 2)]
     @ toks r (pos + length (astToString l) + 4)
     @ [RPAREN (pos + length (astToString l) + length (astToString r) + 4)]"

definition prependTokens :: "token list \<Rightarrow> error + token list \<Rightarrow> error + token list" where
  "prependTokens ts r = (case r of Inl e \<Rightarrow> Inl e | Inr ts' \<Rightarrow> Inr (ts @ ts'))"

lemma prependTokens_append:
  "prependTokens (a @ b) r = prependTokens a (prependTokens b r)"
  by (simp add: prependTokens_def split: sum.splits)

lemma prependTokens_Cons:
  "prependTokens (x # a) r = prependTokens [x] (prependTokens a r)"
  by (simp add: prependTokens_def split: sum.splits)

lemma tokenizeLoop_step:
  "getNextToken pos s = Inr (tok, pos', s') \<Longrightarrow> \<not> isEOF tok \<Longrightarrow>
   tokenizeLoop pos s = prependTokens [tok] (tokenizeLoop pos' s')"
  by (simp add: tokenizeLoop.simps[of pos s] prependTokens_def split: sum.splits)

lemma tokenizeLoop_skip:
  "isWhitespace c \<Longrightarrow> tokenizeLoop pos (c # s) = tokenizeLoop (Suc pos) s"
  by (simp add: tokenizeLoop.simps[of pos "c # s"] tokenizeLoop.simps[of "Suc pos" s])

text \<open>An identifier ends where the input ends or a character outside the class follows.\<close>

definition stops :: "jstring \<Rightarrow> bool" where
  "stops rest \<longleftrightarrow> (case rest of [] \<Rightarrow> True | c # cs \<Rightarrow> \<not> isIdentChar c)"

lemma startsWith_ident_append:
  "startsWith (v @ rest) op \<Longrightarrow> list_all isIdentChar op \<Longrightarrow> stops rest \<Longrightarrow> startsWith v op"
proof (induction v op rule: startsWith.induct)
  case (2 p ps)
  then show ?case by (cases rest) (auto simp: stops_def)
qed auto

lemma startsOperator_append:
  assumes "matchesAtomPattern v" and "stops rest" and "startsOperator (v @ rest)"
  shows "startsOperator v"
proof -
  from assms(1) obtain c cs where v: "v = c # cs" and c: "isLetter c"
    by (auto simp: matchesAtomPattern_def split: list.splits)
  from assms(3) have "startsWithKeyword (c # (cs @ rest))"
    using atom_startsOperator[OF c, of "cs @ rest"] v by simp
  then obtain op where op: "op \<in> {js ''AND'', js ''OR'', js ''IMPLIES'', js ''IFF'', js ''NOT''}"
    and sw: "startsWith (v @ rest) op"
    unfolding startsWithKeyword_def v by (auto simp: list_ex_iff)
  from op have "list_all isIdentChar op"
    by (auto simp: js_def isIdentChar_def isLetter_def)
  from startsWith_ident_append[OF sw this assms(2)] op
  have "startsWithKeyword v" by (auto simp: startsWithKeyword_def list_ex_iff)
  with atom_startsOperator[OF c, of cs] v show ?thesis by simp
qed

lemma takeWhile_ident:
  "list_all isIdentChar v \<Longrightarrow> stops rest \<Longrightarrow>
   takeWhile isIdentChar (v @ rest) = v \<and> dropWhile isIdentChar (v @ rest) = rest"
  by (induction v) (auto simp: stops_def split: list.splits)

lemma getNextToken_ident:
  assumes "identOk v" and "stops rest"
  shows "getNextToken pos (v @ rest) = Inr (IDENTIFIER v pos, pos + length v, rest)"
proof -
  from assms(1) obtain c cs where v: "v = c # cs" and c: "isLetter c"
    and cs: "list_all isIdentChar cs" and m: "matchesAtomPattern v" and no: "\<not> startsOperator v"
    by (auto simp: identOk_def matchesAtomPattern_def split: list.splits)
  have all: "list_all isIdentChar v" using v c cs by (simp add: isLetter_isIdentChar)
  have nop: "\<not> startsOperator (c # (cs @ rest))"
    using startsOperator_append[OF m assms(2)] no v by auto
  have c40: "c \<noteq> 40" "c \<noteq> 41" using c by (auto simp: isLetter_def)
  have nws: "\<not> isWhitespace c" using c by (simp add: isLetter_isIdentChar isIdentChar_not_whitespace)
  from takeWhile_ident[OF all assms(2)] c c40 nws nop show ?thesis
    unfolding v by (simp add: readIdentifier_def Let_def)
qed

lemma getNextToken_tilde:
  "getNextToken pos (126 # s) = Inr (OPERATOR NOT pos, Suc pos, s)"
  by (simp add: isWhitespace_def startsOperator_def OPERATOR_MAPPINGS_def js_def
      readOperator_def operatorsByLength_eq)

lemma getNextToken_lparen: "getNextToken pos (40 # s) = Inr (LPAREN pos, Suc pos, s)"
  by (simp add: isWhitespace_def)

lemma getNextToken_rparen: "getNextToken pos (41 # s) = Inr (RPAREN pos, Suc pos, s)"
  by (simp add: isWhitespace_def)

lemma getNextToken_symbol:
  "op \<noteq> NOT \<Longrightarrow> getNextToken pos (opSymbol op @ s) = Inr (OPERATOR op pos, Suc pos, s)"
  by (cases op)
     (simp_all add: isWhitespace_def startsOperator_def OPERATOR_MAPPINGS_def js_def
        readOperator_def operatorsByLength_eq)

lemma isWhitespace_space: "isWhitespace 32"
  by (simp add: isWhitespace_def)

lemma stops_simps: "stops (32 # s)" "stops (41 # s)" "stops []"
  by (simp_all add: stops_def isIdentChar_def isLetter_def)

lemma tokenizeLoop_render:
  "wfAST t \<Longrightarrow> stops rest \<Longrightarrow>
   tokenizeLoop pos (astToString t @ rest) =
     prependTokens (toks t pos) (tokenizeLoop (pos + length (astToString t)) rest)"
proof (induction t arbitrary: pos rest)
  case (AtomNode v)
  then have "getNextToken pos (v @ rest) = Inr (IDENTIFIER v pos, pos + length v, rest)"
    by (simp add: getNextToken_ident)
  from tokenizeLoop_step[OF this] show ?case by simp
next
  case (UnaryNode op t)
  have "tokenizeLoop pos (126 # astToString t @ rest) =
        prependTokens [OPERATOR NOT pos] (tokenizeLoop (Suc pos) (astToString t @ rest))"
    by (rule tokenizeLoop_step[OF getNextToken_tilde]) simp
  with UnaryNode show ?case
    by (simp add: js_def prependTokens_Cons[of _ "toks t (Suc pos)"])
next
  case (BinaryNode op l r)
  let ?L = "astToString l" and ?R = "astToString r"
  from BinaryNode.prems have wl: "wfAST l" and wr: "wfAST r" and op: "op \<noteq> NOT" by simp_all
  have s1: "tokenizeLoop pos (40 # ?L @ 32 # opSymbol op @ 32 # ?R @ 41 # rest) =
        prependTokens [LPAREN pos]
          (tokenizeLoop (Suc pos) (?L @ 32 # opSymbol op @ 32 # ?R @ 41 # rest))"
    by (rule tokenizeLoop_step[OF getNextToken_lparen]) simp
  have s2: "tokenizeLoop (Suc pos) (?L @ 32 # opSymbol op @ 32 # ?R @ 41 # rest) =
        prependTokens (toks l (Suc pos))
          (tokenizeLoop (Suc pos + length ?L) (32 # opSymbol op @ 32 # ?R @ 41 # rest))"
    by (rule BinaryNode.IH(1)[OF wl]) (rule stops_simps)
  have e3: "Suc (Suc pos + length ?L) = pos + length ?L + 2" by simp
  have s3: "tokenizeLoop (Suc pos + length ?L) (32 # opSymbol op @ 32 # ?R @ 41 # rest) =
        tokenizeLoop (pos + length ?L + 2) (opSymbol op @ 32 # ?R @ 41 # rest)"
    by (simp only: tokenizeLoop_skip[OF isWhitespace_space] e3)
  have s4: "tokenizeLoop (pos + length ?L + 2) (opSymbol op @ 32 # ?R @ 41 # rest) =
        prependTokens [OPERATOR op (pos + length ?L + 2)]
          (tokenizeLoop (Suc (pos + length ?L + 2)) (32 # ?R @ 41 # rest))"
    by (rule tokenizeLoop_step[OF getNextToken_symbol[OF op]]) simp
  have e5: "Suc (Suc (pos + length ?L + 2)) = pos + length ?L + 4" by simp
  have s5: "tokenizeLoop (Suc (pos + length ?L + 2)) (32 # ?R @ 41 # rest) =
        tokenizeLoop (pos + length ?L + 4) (?R @ 41 # rest)"
    by (simp only: tokenizeLoop_skip[OF isWhitespace_space] e5)
  have s6: "tokenizeLoop (pos + length ?L + 4) (?R @ 41 # rest) =
        prependTokens (toks r (pos + length ?L + 4))
          (tokenizeLoop (pos + length ?L + 4 + length ?R) (41 # rest))"
    by (rule BinaryNode.IH(2)[OF wr]) (rule stops_simps)
  have s7: "tokenizeLoop (pos + length ?L + 4 + length ?R) (41 # rest) =
        prependTokens [RPAREN (pos + length ?L + 4 + length ?R)]
          (tokenizeLoop (Suc (pos + length ?L + 4 + length ?R)) rest)"
    by (rule tokenizeLoop_step[OF getNextToken_rparen]) simp
  have len: "length (opSymbol op) = 1" using op by (cases op) simp_all
  have pos_eq: "pos + length (astToString (BinaryNode op l r)) =
                Suc (pos + length ?L + 4 + length ?R)"
    using len by (simp add: js_def)
  have "tokenizeLoop pos (astToString (BinaryNode op l r) @ rest) =
        tokenizeLoop pos (40 # ?L @ 32 # opSymbol op @ 32 # ?R @ 41 # rest)"
    by (simp add: js_def)
  also have "\<dots> = prependTokens (toks (BinaryNode op l r) pos)
                    (tokenizeLoop (Suc (pos + length ?L + 4 + length ?R)) rest)"
    unfolding s1 s2 s3 s4 s5 s6 s7
    by (simp add: prependTokens_def add.commute add.left_commute split: sum.splits)
  finally show ?case unfolding pos_eq .
qed

lemma conj_lift:
  "parseNegation st = Inr (a, s) \<Longrightarrow> \<not> matchOperator s AND \<Longrightarrow> parseConjunction st = Inr (a, s)"
  by (simp add: parseConjunction.simps[of st] conjunctionLoop.simps[of a s])

lemma disj_lift:
  "parseConjunction st = Inr (a, s) \<Longrightarrow> \<not> matchOperator s OR \<Longrightarrow> parseDisjunction st = Inr (a, s)"
  by (simp add: parseDisjunction.simps[of st] disjunctionLoop.simps[of a s])

lemma impl_lift:
  "parseDisjunction st = Inr (a, s) \<Longrightarrow> \<not> matchOperator s IMPLIES \<Longrightarrow>
   parseImplication st = Inr (a, s)"
  by (simp add: parseImplication.simps[of st])

lemma equiv_lift:
  "parseImplication st = Inr (a, s) \<Longrightarrow> \<not> matchOperator s IFF \<Longrightarrow>
   parseEquivalence st = Inr (a, s)"
  by (simp add: parseEquivalence.simps[of st] equivalenceLoop.simps[of a s])

lemma conj_step:
  "parseNegation st = Inr (l, s) \<Longrightarrow> matchOperator s AND \<Longrightarrow>
   parseNegation (advance s) = Inr (x, s') \<Longrightarrow> \<not> matchOperator s' AND \<Longrightarrow>
   parseConjunction st = Inr (BinaryNode AND l x, s')"
  by (simp add: parseConjunction.simps[of st] conjunctionLoop.simps[of l s]
      conjunctionLoop.simps[of "BinaryNode AND l x" s'] createConjunction_def)

lemma disj_step:
  "parseConjunction st = Inr (l, s) \<Longrightarrow> matchOperator s OR \<Longrightarrow>
   parseConjunction (advance s) = Inr (x, s') \<Longrightarrow> \<not> matchOperator s' OR \<Longrightarrow>
   parseDisjunction st = Inr (BinaryNode OR l x, s')"
  by (simp add: parseDisjunction.simps[of st] disjunctionLoop.simps[of l s]
      disjunctionLoop.simps[of "BinaryNode OR l x" s'] createDisjunction_def)

lemma impl_step:
  "parseDisjunction st = Inr (l, s) \<Longrightarrow> matchOperator s IMPLIES \<Longrightarrow>
   parseImplication (advance s) = Inr (x, s') \<Longrightarrow>
   parseImplication st = Inr (BinaryNode IMPLIES l x, s')"
  by (simp add: parseImplication.simps[of st] createImplication_def)

lemma equiv_step:
  "parseImplication st = Inr (l, s) \<Longrightarrow> matchOperator s IFF \<Longrightarrow>
   parseImplication (advance s) = Inr (x, s') \<Longrightarrow> \<not> matchOperator s' IFF \<Longrightarrow>
   parseEquivalence st = Inr (BinaryNode IFF l x, s')"
  by (simp add: parseEquivalence.simps[of st] equivalenceLoop.simps[of l s]
      equivalenceLoop.simps[of "BinaryNode IFF l x" s'] createEquivalence_def)

lemma parsePrimary_paren:
  "parseEquivalence (Suc i, ts) = Inr (a, (k, RPAREN p # rest)) \<Longrightarrow>
   parsePrimary (i, LPAREN q # ts) = Inr (a, (Suc k, rest))"
  by (simp add: parsePrimary.simps[of "(i, LPAREN q # ts)"])

lemma parseNegation_primary:
  "\<not> matchOperator st NOT \<Longrightarrow> parseNegation st = parsePrimary st"
  by (simp add: parseNegation.simps[of st])

lemma parseNegation_toks:
  "wfAST t \<Longrightarrow>
   parseNegation (i, toks t pos @ rest) = Inr (t, (i + length (toks t pos), rest))"
proof (induction t arbitrary: i pos rest)
  case (AtomNode v)
  show ?case
    by (simp add: parseNegation.simps[of "(i, IDENTIFIER v pos # rest)"]
        parsePrimary.simps[of "(i, IDENTIFIER v pos # rest)"] createAtom_def)
next
  case (UnaryNode op t)
  then have "parseNegation (Suc i, toks t (Suc pos) @ rest) =
             Inr (t, (Suc i + length (toks t (Suc pos)), rest))"
    by simp
  with UnaryNode.prems show ?case
    by (simp add: parseNegation.simps[of "(i, OPERATOR NOT pos # toks t (Suc pos) @ rest)"]
        negate_def)
next
  case (BinaryNode op l r)
  from BinaryNode.prems have wl: "wfAST l" and wr: "wfAST r" and op: "op \<noteq> NOT" by simp_all
  let ?p2 = "pos + length (astToString l) + 2"
  let ?p3 = "pos + length (astToString l) + 4"
  let ?p4 = "pos + length (astToString l) + length (astToString r) + 4"
  let ?R2 = "RPAREN ?p4 # rest"
  let ?R1 = "OPERATOR op ?p2 # toks r ?p3 @ ?R2"
  let ?st1 = "(Suc i, toks l (Suc pos) @ ?R1)"
  let ?s = "(Suc i + length (toks l (Suc pos)), ?R1)"
  let ?k = "Suc (Suc i + length (toks l (Suc pos))) + length (toks r ?p3)"
  let ?s' = "(?k, ?R2)"
  have nl: "parseNegation ?st1 = Inr (l, ?s)"
    by (rule BinaryNode.IH(1)[OF wl])
  have nr: "parseNegation (advance ?s) = Inr (r, ?s')"
    using BinaryNode.IH(2)[OF wr, of "Suc (Suc i + length (toks l (Suc pos)))" ?p3 ?R2] by simp
  have cr: "parseConjunction (advance ?s) = Inr (r, ?s')"
    by (rule conj_lift[OF nr]) simp
  have dr: "parseDisjunction (advance ?s) = Inr (r, ?s')"
    by (rule disj_lift[OF cr]) simp
  have ir: "parseImplication (advance ?s) = Inr (r, ?s')"
    by (rule impl_lift[OF dr]) simp
  have pe: "parseEquivalence ?st1 = Inr (BinaryNode op l r, ?s')"
  proof (cases op)
    case NOT
    with op show ?thesis by simp
  next
    case AND
    have "parseConjunction ?st1 = Inr (BinaryNode AND l r, ?s')"
      by (rule conj_step[OF nl _ nr]) (simp_all add: AND)
    then have "parseDisjunction ?st1 = Inr (BinaryNode AND l r, ?s')"
      by (rule disj_lift) simp
    then have "parseImplication ?st1 = Inr (BinaryNode AND l r, ?s')"
      by (rule impl_lift) simp
    then have "parseEquivalence ?st1 = Inr (BinaryNode AND l r, ?s')"
      by (rule equiv_lift) simp
    with AND show ?thesis by simp
  next
    case OR
    have "parseConjunction ?st1 = Inr (l, ?s)"
      by (rule conj_lift[OF nl]) (simp add: OR)
    then have "parseDisjunction ?st1 = Inr (BinaryNode OR l r, ?s')"
      by (rule disj_step[OF _ _ cr]) (simp_all add: OR)
    then have "parseImplication ?st1 = Inr (BinaryNode OR l r, ?s')"
      by (rule impl_lift) simp
    then have "parseEquivalence ?st1 = Inr (BinaryNode OR l r, ?s')"
      by (rule equiv_lift) simp
    with OR show ?thesis by simp
  next
    case IMPLIES
    have "parseConjunction ?st1 = Inr (l, ?s)"
      by (rule conj_lift[OF nl]) (simp add: IMPLIES)
    then have "parseDisjunction ?st1 = Inr (l, ?s)"
      by (rule disj_lift) (simp add: IMPLIES)
    then have "parseImplication ?st1 = Inr (BinaryNode IMPLIES l r, ?s')"
      by (rule impl_step[OF _ _ ir]) (simp add: IMPLIES)
    then have "parseEquivalence ?st1 = Inr (BinaryNode IMPLIES l r, ?s')"
      by (rule equiv_lift) simp
    with IMPLIES show ?thesis by simp
  next
    case IFF
    have "parseConjunction ?st1 = Inr (l, ?s)"
      by (rule conj_lift[OF nl]) (simp add: IFF)
    then have "parseDisjunction ?st1 = Inr (l, ?s)"
      by (rule disj_lift) (simp add: IFF)
    then have "parseImplication ?st1 = Inr (l, ?s)"
      by (rule impl_lift) (simp add: IFF)
    then have "parseEquivalence ?st1 = Inr (BinaryNode IFF l r, ?s')"
      by (rule equiv_step[OF _ _ ir]) (simp_all add: IFF)
    with IFF show ?thesis by simp
  qed
  have "parsePrimary (i, LPAREN pos # toks l (Suc pos) @ ?R1) =
          Inr (BinaryNode op l r, (Suc ?k, rest))"
    by (rule parsePrimary_paren[OF pe])
  moreover have "parseNegation (i, LPAREN pos # toks l (Suc pos) @ ?R1) =
                 parsePrimary (i, LPAREN pos # toks l (Suc pos) @ ?R1)"
    by (rule parseNegation_primary) simp
  ultimately show ?case by simp
qed

lemma parse_toks:
  assumes "wfAST t"
  shows "parse (toks t 0 @ [EOF n]) = Inr t"
proof -
  let ?s = "(0 + length (toks t 0), [EOF n])"
  have "parseNegation (0, toks t 0 @ [EOF n]) = Inr (t, ?s)"
    by (rule parseNegation_toks[OF assms])
  then have "parseConjunction (0, toks t 0 @ [EOF n]) = Inr (t, ?s)"
    by (rule conj_lift) simp
  then have "parseDisjunction (0, toks t 0 @ [EOF n]) = Inr (t, ?s)"
    by (rule disj_lift) simp
  then have "parseImplication (0, toks t 0 @ [EOF n]) = Inr (t, ?s)"
    by (rule impl_lift) simp
  then have "parseEquivalence (0, toks t 0 @ [EOF n]) = Inr (t, ?s)"
    by (rule equiv_lift) simp
  then show ?thesis by (simp add: parse_def)
qed

lemma render_ends:
  "wfAST t \<Longrightarrow> astToString t \<noteq> [] \<and> \<not> isWhitespace (hd (astToString t))
     \<and> \<not> isWhitespace (last (astToString t))"
proof (induction t)
  case (AtomNode v)
  then obtain c cs where v: "v = c # cs" "isLetter c" "list_all isIdentChar cs"
    by (auto simp: identOk_def matchesAtomPattern_def split: list.splits)
  then have all: "\<forall>x \<in> set v. \<not> isWhitespace x"
    by (auto simp: list_all_iff isLetter_isIdentChar isIdentChar_not_whitespace)
  from v(1) have "hd v \<in> set v" "last v \<in> set v" by simp_all
  with all v(1) show ?case by auto
next
  case (UnaryNode op t)
  then show ?case by (simp add: js_def isWhitespace_def)
next
  case (BinaryNode op l r)
  then show ?case by (simp add: js_def isWhitespace_def)
qed

lemma trim_id:
  assumes "s \<noteq> []" "\<not> isWhitespace (hd s)" "\<not> isWhitespace (last s)"
  shows "trim s = s"
proof -
  from assms(1,2) have a: "dropWhile isWhitespace s = s" by (cases s) auto
  from assms(1,3) have "dropWhile isWhitespace (rev s) = rev s"
    by (cases "rev s") (auto simp: last_rev[symmetric] simp del: last_rev)
  with a show ?thesis by (simp add: trim_def)
qed

lemma tokenize_render:
  assumes "wfAST t"
  shows "tokenize (astToString t) = Inr (toks t 0 @ [EOF (length (astToString t))])"
proof -
  from render_ends[OF assms] have "trim (astToString t) = astToString t"
    by (intro trim_id) simp_all
  moreover have "tokenizeLoop 0 (astToString t @ []) =
     prependTokens (toks t 0) (tokenizeLoop (0 + length (astToString t)) [])"
    by (rule tokenizeLoop_render[OF assms]) (rule stops_simps)
  ultimately show ?thesis
    by (simp add: tokenize_def tokenizeLoop.simps[of _ "[]"] prependTokens_def)
qed

lemma parse_render:
  "wfAST t \<Longrightarrow> parseFormulaFromString (astToString t) = Inr t"
  by (simp add: parseFormulaFromString_def tokenize_render parse_toks)

lemma parsed_wf:
  assumes "parseFormula s = Inr p"
  shows "wfAST (ast p)" and "normalizeAST (ast p) = ast p"
proof -
  from assms obtain ts a where ts: "tokenize s = Inr ts" and a: "parse ts = Inr a"
    and p: "ast p = normalizeAST a"
    by (auto simp: parseFormula_def parseFormulaFromString_def split: sum.splits)
  from ts have "okTokens ts" by (auto simp: tokenize_def dest: tokenizeLoop_okTokens)
  from parse_wf[OF this a] p show "wfAST (ast p)" by (simp add: normalizeAST_wf)
  from p show "normalizeAST (ast p) = ast p" by (simp add: normalizeAST_idem)
qed

lemma astEquals_refl: "astEquals a a"
  by (induction a) auto

lemma astEquals_eq: "astEquals a b \<longleftrightarrow> a = b"
  by (induction a b rule: astEquals.induct) auto

text \<open>
  Claim C3. For every formula string \<open>s\<close> that parses, the canonical rendering of the
  parsed and normalized tree parses again, and the tree of the second parse is
  structurally equal (\<open>astEquals\<close>) to the tree of the first, indeed the same tree.
\<close>

theorem parse_render_roundtrip:
  "parseFormula s = Inr p \<Longrightarrow>
     (\<exists>p'. parseFormula (formulaToString p) = Inr p' \<and> astEquals (ast p') (ast p)
           \<and> ast p' = ast p)"
proof -
  assume a: "parseFormula s = Inr p"
  from parsed_wf[OF a] parse_render[of "ast p"]
  have "parseFormula (formulaToString p) = Inr \<lparr>raw = formulaToString p, ast = ast p\<rparr>"
    by (simp add: parseFormula_def formulaToString_def)
  then show ?thesis by (simp add: astEquals_refl)
qed

theorem parse_render_roundtrip_witness:
  "parseFormula (js ''A -> ~~B'') =
     Inr \<lparr>raw = js ''A -> ~~B'',
          ast = BinaryNode IMPLIES (AtomNode (js ''A'')) (AtomNode (js ''B''))\<rparr>
   \<and> (\<exists>p'. parseFormula (js ''(A '' @ [8594] @ js '' B)'') = Inr p'
         \<and> astEquals (ast p') (BinaryNode IMPLIES (AtomNode (js ''A'')) (AtomNode (js ''B''))))"
proof -
  let ?p = "\<lparr>raw = js ''A -> ~~B'',
          ast = BinaryNode IMPLIES (AtomNode (js ''A'')) (AtomNode (js ''B''))\<rparr>"
  have p: "parseFormula (js ''A -> ~~B'') = Inr ?p"
    by (simp add: lexer_eval parser_eval)
  have r: "formulaToString ?p = js ''(A '' @ [8594] @ js '' B)''"
    by (simp add: formulaToString_def js_def)
  from parse_render_roundtrip [OF p] p r show ?thesis by auto
qed

end
